theory Spec2Isabelle
  imports Main
begin

section \<open>Honeycomb word search over a dictionary trie\<close>

text \<open>
  A shallow embedding of \<^verbatim>\<open>src/honeycomb_trie.c\<close>.  Every C function that a
  property below talks about is a HOL function of the same name.  The C code mutates
  the trie, the honeycomb, the word buffer and the word store in place; the model
  passes them as arguments and returns the updated values.  The trie is a tree (every
  node is allocated by \<^verbatim>\<open>get_trienode\<close> and linked from exactly one parent), so
  returning the updated child and putting it back into its parent is the same as the
  in-place update.

  A step with undefined behaviour in C (an index outside an array, a dereferenced null
  pointer, a read of memory that was never written) is a value of the type \<open>fault\<close>,
  as is the \<^verbatim>\<open>exit(1)\<close> of a failed allocation.  Results have the type
  \<open>fault + 'a\<close>.  The C type \<^verbatim>\<open>int\<close> is modelled by \<open>int\<close>: all integers of the
  program are indices into, or sizes of, objects that exist in memory.  A C string is
  the list of its characters before the terminating NUL.
\<close>

datatype fault =
    Trie_Out_Of_Bounds
  | Grid_Out_Of_Bounds
  | Null_Column
  | Word_Out_Of_Bounds
  | Buffer_Out_Of_Bounds
  | Uninitialised
  | Alloc_Failed

subsection \<open>Trie\<close>

definition ALPHABET_SIZE :: nat where
  "ALPHABET_SIZE = 26"

definition WORD_SIZE :: nat where
  "WORD_SIZE = 1024"

text \<open>\<^verbatim>\<open>#define CHAR_TO_INDEX(c) ((int)c - (int)'A')\<close>\<close>

definition CHAR_TO_INDEX :: "char \<Rightarrow> int" where
  "CHAR_TO_INDEX c = int (of_char c) - int (of_char CHR ''A'')"

text \<open>
  \<^verbatim>\<open>struct trie_node { struct trie_node *next[ALPHABET_SIZE]; bool is_end; }\<close>.
  A pointer to a node is a \<open>trie_node option\<close>, \<open>None\<close> for \<^verbatim>\<open>NULL\<close>.
\<close>

datatype trie_node = Trie_Node (is_end: bool) (next': "trie_node option list")

definition get_trienode :: trie_node where
  "get_trienode = Trie_Node False (replicate ALPHABET_SIZE None)"

text \<open>
  The read \<^verbatim>\<open>node->next[index]\<close>.  The array has \<open>ALPHABET_SIZE\<close> entries; the
  last conjunct holds for every node that \<open>get_trienode\<close> allocates and keeps the
  read inside the list for a value that is no such node.
\<close>

definition child_at :: "trie_node \<Rightarrow> int \<Rightarrow> fault + trie_node option" where
  "child_at node index =
     (if 0 \<le> index \<and> index < int ALPHABET_SIZE \<and> nat index < length (next' node)
      then Inr (next' node ! nat index)
      else Inl Trie_Out_Of_Bounds)"

text \<open>The write \<^verbatim>\<open>node->next[index] = child\<close>, after \<open>child_at\<close> has read the entry.\<close>

definition set_child :: "trie_node \<Rightarrow> int \<Rightarrow> trie_node \<Rightarrow> trie_node" where
  "set_child node index child =
     Trie_Node (is_end node) ((next' node)[nat index := Some child])"

text \<open>
  \<^verbatim>\<open>insert_trie\<close> walks \<^verbatim>\<open>parent\<close> down the trie, one level for each character
  of the key, allocating the children that are missing, and marks the last node.  The
  model recurses on the key; the node it returns is the updated \<^verbatim>\<open>parent\<close>.
\<close>

fun insert_trie :: "trie_node \<Rightarrow> string \<Rightarrow> fault + trie_node" where
  "insert_trie parent [] = Inr (Trie_Node True (next' parent))"
| "insert_trie parent (c # key) =
     (case child_at parent (CHAR_TO_INDEX c) of
        Inl e \<Rightarrow> Inl e
      | Inr child \<Rightarrow>
          (case insert_trie (case child of None \<Rightarrow> get_trienode | Some n \<Rightarrow> n) key of
             Inl e \<Rightarrow> Inl e
           | Inr child' \<Rightarrow> Inr (set_child parent (CHAR_TO_INDEX c) child')))"

subsection \<open>Reading the dictionary\<close>

text \<open>
  The write \<^verbatim>\<open>word[strlen(word) - 1] = '\0'\<close>: it removes the last character of
  the string, whatever that character is.  On the empty string the index is
  \<^verbatim>\<open>(size_t)0 - 1\<close>, outside the buffer.
\<close>

definition chop :: "string \<Rightarrow> fault + string" where
  "chop word = (if word = [] then Inl Word_Out_Of_Bounds else Inr (butlast word))"

text \<open>
  The C library's \<^verbatim>\<open>fgets(s, n, fp)\<close>, after the C standard: it reads at most
  \<open>n - 1\<close> characters, stops after a newline, which it keeps, or at the end of the
  file, and returns \<^verbatim>\<open>NULL\<close> when the file ends before a character was read.  The
  stream \<^verbatim>\<open>fp\<close> is the list of the characters not yet read; the model returns the
  characters read and the rest of the stream.
\<close>

fun fgets_chars :: "nat \<Rightarrow> string \<Rightarrow> string \<times> string" where
  "fgets_chars 0 fp = ([], fp)"
| "fgets_chars (Suc n) [] = ([], [])"
| "fgets_chars (Suc n) (c # fp) =
     (if c = CHR 0x0A then ([c], fp)
      else (case fgets_chars n fp of (s, fp') \<Rightarrow> (c # s, fp')))"

definition fgets :: "nat \<Rightarrow> string \<Rightarrow> (string \<times> string) option" where
  "fgets n fp = (if fp = [] then None else Some (fgets_chars (n - 1) fp))"

text \<open>
  The string that the C string functions see in a buffer filled by \<^verbatim>\<open>fgets\<close>: the
  characters before the first NUL (a dictionary file may hold NUL bytes).
\<close>

definition c_string :: "string \<Rightarrow> string" where
  "c_string buf = takeWhile (\<lambda>c. c \<noteq> CHR 0x00) buf"

lemma fgets_chars_shorter: "length (snd (fgets_chars n fp)) \<le> length fp"
  by (induction n fp rule: fgets_chars.induct) (auto split: prod.splits)

lemma fgets_chars_progress:
  "0 < n \<Longrightarrow> fp \<noteq> [] \<Longrightarrow> length (snd (fgets_chars n fp)) < length fp"
  using fgets_chars_shorter [of "n - 1" "tl fp"]
  by (cases n; cases fp) (auto split: prod.splits)

lemma fgets_shorter:
  "fgets WORD_SIZE fp = Some (word, fp') \<Longrightarrow> length fp' < length fp"
  using fgets_chars_progress [of "WORD_SIZE - 1" fp]
  by (auto simp: fgets_def WORD_SIZE_def split: if_splits)

text \<open>
  \<^verbatim>\<open>fill_trie\<close>: while \<^verbatim>\<open>fgets\<close> returns a line, remove its last character and
  insert it.
\<close>

function fill_trie :: "trie_node \<Rightarrow> string \<Rightarrow> fault + trie_node" where
  "fill_trie root fp =
     (case fgets WORD_SIZE fp of
        None \<Rightarrow> Inr root
      | Some (word, fp') \<Rightarrow>
          (case chop (c_string word) of
             Inl e \<Rightarrow> Inl e
           | Inr key \<Rightarrow>
               (case insert_trie root key of
                  Inl e \<Rightarrow> Inl e
                | Inr root' \<Rightarrow> fill_trie root' fp')))"
  by pat_completeness auto
termination
  by (relation "measure (\<lambda>(root, fp). length fp)") (auto dest: fgets_shorter)

text \<open>The keys that \<open>fill_trie\<close> hands to \<open>insert_trie\<close>, in the order of the calls.\<close>

function dictionary_keys :: "string \<Rightarrow> string list" where
  "dictionary_keys fp =
     (case fgets WORD_SIZE fp of
        None \<Rightarrow> []
      | Some (word, fp') \<Rightarrow> butlast (c_string word) # dictionary_keys fp')"
  by pat_completeness auto
termination
  by (relation "measure length") (auto dest: fgets_shorter)

declare fill_trie.simps [simp del] dictionary_keys.simps [simp del]

text \<open>
  The program has no lookup function: \<^verbatim>\<open>find_words_trie\<close> walks down the trie one
  child at a time, \<^verbatim>\<open>node->next[CHAR_TO_INDEX(c)]\<close>.  \<open>descend\<close> repeats that step
  along a key; it ends in \<open>None\<close> at a null child.
\<close>

fun descend :: "trie_node \<Rightarrow> string \<Rightarrow> fault + trie_node option" where
  "descend node [] = Inr (Some node)"
| "descend node (c # key) =
     (case child_at node (CHAR_TO_INDEX c) of
        Inl e \<Rightarrow> Inl e
      | Inr None \<Rightarrow> Inr None
      | Inr (Some next_node) \<Rightarrow> descend next_node key)"

definition is_word :: "trie_node \<Rightarrow> string \<Rightarrow> bool" where
  "is_word root key = (case descend root key of Inr (Some n) \<Rightarrow> is_end n | _ \<Rightarrow> False)"

text \<open>Every node of the trie holds an array of \<open>ALPHABET_SIZE\<close> children.\<close>

fun wf_trie :: "trie_node \<Rightarrow> bool" where
  "wf_trie (Trie_Node e cs) =
     (length cs = ALPHABET_SIZE \<and>
      (\<forall>c \<in> set cs. case c of None \<Rightarrow> True | Some n \<Rightarrow> wf_trie n))"

text \<open>The characters \<^verbatim>\<open>'A'\<close> to \<^verbatim>\<open>'Z'\<close>.\<close>

definition is_symbol :: "char \<Rightarrow> bool" where
  "is_symbol c \<longleftrightarrow>
     int (of_char CHR ''A'') \<le> int (of_char c) \<and> int (of_char c) \<le> int (of_char CHR ''Z'')"

subsection \<open>Honeycomb and word store\<close>

text \<open>
  \<^verbatim>\<open>struct honeycomb { int number_columns; char **columns; }\<close>: the array of the
  column pointers and, for each pointer that is not \<^verbatim>\<open>NULL\<close>, the string it points
  to.  \<^verbatim>\<open>struct word_store { int size; char **words; }\<close> is the list of its
  \<^verbatim>\<open>size\<close> words.
\<close>

record honeycomb =
  number_columns :: int
  columns :: "string option list"

type_synonym word_store = "string list"

definition create_store :: word_store where
  "create_store = []"

text \<open>The read \<^verbatim>\<open>hc->columns[column]\<close> of a string.\<close>

definition column_at :: "honeycomb \<Rightarrow> int \<Rightarrow> fault + string" where
  "column_at hc column =
     (if 0 \<le> column \<and> nat column < length (columns hc)
      then (case columns hc ! nat column of None \<Rightarrow> Inl Null_Column | Some s \<Rightarrow> Inr s)
      else Inl Grid_Out_Of_Bounds)"

text \<open>
  The read \<^verbatim>\<open>hc->columns[column][label]\<close> of a character of the string (the model
  counts a read of the terminating NUL as out of bounds) and the write
  \<^verbatim>\<open>hc->columns[column][label] = c\<close>.
\<close>

definition cell_at :: "honeycomb \<Rightarrow> int \<Rightarrow> int \<Rightarrow> fault + char" where
  "cell_at hc column label =
     (case column_at hc column of
        Inl e \<Rightarrow> Inl e
      | Inr s \<Rightarrow> if 0 \<le> label \<and> nat label < length s then Inr (s ! nat label)
                 else Inl Grid_Out_Of_Bounds)"

definition set_cell :: "honeycomb \<Rightarrow> int \<Rightarrow> int \<Rightarrow> char \<Rightarrow> fault + honeycomb" where
  "set_cell hc column label c =
     (case column_at hc column of
        Inl e \<Rightarrow> Inl e
      | Inr s \<Rightarrow> if 0 \<le> label \<and> nat label < length s
                 then Inr (hc\<lparr>columns := (columns hc)[nat column := Some (s[nat label := c])]\<rparr>)
                 else Inl Grid_Out_Of_Bounds)"

subsection \<open>Search\<close>

type_synonym search_state = "honeycomb \<times> trie_node \<times> word_store \<times> string"

text \<open>
  The first operand of \<^verbatim>\<open>&&\<close> in the sanity check of \<^verbatim>\<open>find_words_trie\<close>,
  evaluated from left to right as \<^verbatim>\<open>||\<close> does:
  \<^verbatim>\<open>column < 0 || label < 0 || column >= hc->number_columns ||
  label >= strlen(hc->columns[column]) || hc->columns[column][label] == '-'\<close>.
\<close>

definition off_grid :: "honeycomb \<Rightarrow> int \<Rightarrow> int \<Rightarrow> fault + bool" where
  "off_grid hc column label =
     (if column < 0 \<or> label < 0 \<or> column \<ge> number_columns hc then Inr True
      else (case column_at hc column of
              Inl e \<Rightarrow> Inl e
            | Inr s \<Rightarrow> if label \<ge> int (length s) then Inr True
                       else Inr (s ! nat label = CHR ''-'')))"

text \<open>
  \<^verbatim>\<open>strncat(word, hc->columns[column] + label, 1)\<close> appends one character to the
  word buffer of \<open>WORD_SIZE\<close> bytes, and a NUL after it.
\<close>

definition strncat1 :: "string \<Rightarrow> char \<Rightarrow> fault + string" where
  "strncat1 word c =
     (if length word + 2 \<le> WORD_SIZE then Inr (word @ [c]) else Inl Word_Out_Of_Bounds)"

text \<open>
  \<^verbatim>\<open>if (next_node->is_end) { append strdup(word) to the store;
  next_node->is_end = false; }\<close>
\<close>

definition record_word :: "trie_node \<Rightarrow> word_store \<Rightarrow> string \<Rightarrow> trie_node \<times> word_store" where
  "record_word next_node store word =
     (if is_end next_node then (Trie_Node False (next' next_node), store @ [word])
      else (next_node, store))"

text \<open>The pairs \<open>(i, j)\<close> in the order of the two \<^verbatim>\<open>for\<close> loops from -1 to 1.\<close>

definition neighbours :: "(int \<times> int) list" where
  "neighbours = [(i, j). i \<leftarrow> [-1, 0, 1], j \<leftarrow> [-1, 0, 1]]"

text \<open>
  \<^verbatim>\<open>find_words_trie\<close> in three parts, in the order of its text.  \<open>enter\<close> is the
  function up to the loops: the sanity check and its \<^verbatim>\<open>return\<close>, the character
  appended to the word, the child looked up in the trie, and for a child that exists
  the word recorded, the cell saved and overwritten with the marker \<^verbatim>\<open>'-'\<close>.  It
  ends in \<open>Return\<close> where the function does not reach the loops (the \<^verbatim>\<open>return\<close>
  of the sanity check, or a null child, after which only the last character of the word
  is removed), and in \<open>Descend\<close> with the saved character and the state at the head of
  the loops.  \<open>find_words_around\<close> is the pair of loops over the neighbours, and
  \<open>leave\<close> the two statements after the loops.
\<close>

datatype entry = Return search_state | Descend char honeycomb trie_node word_store string

definition enter ::
    "honeycomb \<Rightarrow> trie_node \<Rightarrow> word_store \<Rightarrow> string \<Rightarrow> int \<Rightarrow> int \<Rightarrow> fault + entry" where
  "enter hc node store word column label =
     (case off_grid hc column label of
        Inl e \<Rightarrow> Inl e
      | Inr off \<Rightarrow>
          if off \<and> word \<noteq> [] then Inr (Return (hc, node, store, word))
          else
            (case cell_at hc column label of
               Inl e \<Rightarrow> Inl e
             | Inr c \<Rightarrow>
                 (case strncat1 word c of
                    Inl e \<Rightarrow> Inl e
                  | Inr word1 \<Rightarrow>
                      (case child_at node (CHAR_TO_INDEX c) of
                         Inl e \<Rightarrow> Inl e
                       | Inr None \<Rightarrow>
                           (case chop word1 of
                              Inl e \<Rightarrow> Inl e
                            | Inr word2 \<Rightarrow> Inr (Return (hc, node, store, word2)))
                       | Inr (Some next_node) \<Rightarrow>
                           (case record_word next_node store word1 of
                              (next_node1, store1) \<Rightarrow>
                                (case set_cell hc column label CHR ''-'' of
                                   Inl e \<Rightarrow> Inl e
                                 | Inr hc1 \<Rightarrow>
                                     Inr (Descend c hc1 next_node1 store1 word1)))))))"

definition leave ::
    "trie_node \<Rightarrow> char \<Rightarrow> int \<Rightarrow> int \<Rightarrow> search_state \<Rightarrow> fault + search_state" where
  "leave node save column label st =
     (case st of
        (hc, next_node, store, word) \<Rightarrow>
          (case set_cell hc column label save of
             Inl e \<Rightarrow> Inl e
           | Inr hc' \<Rightarrow>
               (case chop word of
                  Inl e \<Rightarrow> Inl e
                | Inr word' \<Rightarrow>
                    Inr (hc', set_child node (CHAR_TO_INDEX save) next_node, store, word'))))"

function find_words_trie ::
    "honeycomb \<Rightarrow> trie_node \<Rightarrow> word_store \<Rightarrow> string \<Rightarrow> int \<Rightarrow> int \<Rightarrow> fault + search_state"
  and find_words_around ::
    "honeycomb \<Rightarrow> trie_node \<Rightarrow> word_store \<Rightarrow> string \<Rightarrow> int \<Rightarrow> int \<Rightarrow> (int \<times> int) list
       \<Rightarrow> fault + search_state"
where
  "find_words_trie hc node store word column label =
     (case enter hc node store word column label of
        Inl e \<Rightarrow> Inl e
      | Inr (Return st) \<Rightarrow> Inr st
      | Inr (Descend save hc1 next_node store1 word1) \<Rightarrow>
          (case find_words_around hc1 next_node store1 word1 column label neighbours of
             Inl e \<Rightarrow> Inl e
           | Inr st \<Rightarrow> leave node save column label st))"
| "find_words_around hc node store word column label [] = Inr (hc, node, store, word)"
| "find_words_around hc node store word column label ((i, j) # rest) =
     (if \<not> (column + i = column \<and> label + j = label)
      then (case find_words_trie hc node store word (column + i) (label + j) of
              Inl e \<Rightarrow> Inl e
            | Inr (hc', node', store', word') \<Rightarrow>
                find_words_around hc' node' store' word' column label rest)
      else find_words_around hc node store word column label rest)"
  by pat_completeness auto

lemma list_update_nth_same: "xs ! i = y \<Longrightarrow> xs[i := y] = xs"
  by auto

lemma set_cell_restore:
  "cell_at hc column label = Inr c \<Longrightarrow> set_cell hc column label x = Inr hc1 \<Longrightarrow>
     set_cell hc1 column label c = Inr hc"
  by (auto simp: cell_at_def set_cell_def column_at_def list_update_nth_same
           split: if_splits sum.splits option.splits)

lemma strncat1_chop: "strncat1 word c = Inr word1 \<Longrightarrow> chop word1 = Inr word"
  by (auto simp: strncat1_def chop_def split: if_splits)

lemma enter_Return:
  "enter hc node store word column label = Inr (Return st) \<Longrightarrow> st = (hc, node, store, word)"
  unfolding enter_def
  by (auto split: sum.splits if_splits option.splits prod.splits dest: strncat1_chop)

lemma enter_Descend:
  "enter hc node store word column label = Inr (Descend c hc1 n1 s1 w1) \<longleftrightarrow>
     (\<exists>off next_node.
        off_grid hc column label = Inr off \<and> (off \<longrightarrow> word = []) \<and>
        cell_at hc column label = Inr c \<and> strncat1 word c = Inr w1 \<and>
        child_at node (CHAR_TO_INDEX c) = Inr (Some next_node) \<and>
        record_word next_node store w1 = (n1, s1) \<and>
        set_cell hc column label CHR ''-'' = Inr hc1)"
  unfolding enter_def
  by (auto split: sum.splits if_splits option.splits prod.splits)


lemma leave_restores:
  "enter hc node store word column label = Inr (Descend c hc1 n1 s1 w1) \<Longrightarrow>
     leave node c column label (hc1, n2, s2, w1) =
       Inr (hc, set_child node (CHAR_TO_INDEX c) n2, s2, word)"
proof -
  assume "enter hc node store word column label = Inr (Descend c hc1 n1 s1 w1)"
  then have c: "cell_at hc column label = Inr c" and
    m: "set_cell hc column label CHR ''-'' = Inr hc1" and
    w: "strncat1 word c = Inr w1"
    by (auto simp: enter_Descend)
  show ?thesis
    by (simp add: leave_def set_cell_restore [OF c m] strncat1_chop [OF w])
qed

lemma size_list_update_same:
  "i < length xs \<Longrightarrow> f y = f (xs ! i) \<Longrightarrow> size_list f (xs[i := y]) = size_list f xs"
  by (induction xs arbitrary: i) (auto split: nat.splits)

lemma size_child_at:
  assumes "child_at node index = Inr (Some child)"
  shows "size child < size node"
proof -
  obtain e cs where n: "node = Trie_Node e cs"
    by (cases node)
  from assms n have "nat index < length cs" and "cs ! nat index = Some child"
    by (auto simp: child_at_def split: if_splits)
  then have "Some child \<in> set cs"
    by (metis nth_mem)
  then have "size_option size (Some child) \<le> size_list (size_option size) cs"
    by (simp add: size_list_estimation')
  then show ?thesis
    using n by simp
qed

lemma size_set_child:
  "child_at node index = Inr (Some child) \<Longrightarrow> size child' = size child \<Longrightarrow>
     size (set_child node index child') = size node"
  by (cases node)
     (auto simp: child_at_def set_child_def size_list_update_same split: if_splits)

lemma size_record_word:
  "record_word next_node store word = (n1, s1) \<Longrightarrow> size n1 = size next_node"
  by (cases next_node) (auto simp: record_word_def split: if_splits)

lemma enter_Descend_size:
  "enter hc node store word column label = Inr (Descend c hc1 n1 s1 w1) \<Longrightarrow>
     size n1 < size node \<and>
     (\<forall>n2. size n2 = size n1 \<longrightarrow> size (set_child node (CHAR_TO_INDEX c) n2) = size node)"
proof -
  assume "enter hc node store word column label = Inr (Descend c hc1 n1 s1 w1)"
  then obtain next_node where
    c: "child_at node (CHAR_TO_INDEX c) = Inr (Some next_node)" and
    r: "record_word next_node store w1 = (n1, s1)"
    by (auto simp: enter_Descend)
  show ?thesis
    using size_child_at [OF c] size_record_word [OF r] size_set_child [OF c]
    by simp
qed

lemma frame_dom:
  "find_words_trie_find_words_around_dom (Inl (hc, node, store, word, column, label)) \<Longrightarrow>
     find_words_trie hc node store word column label = Inr (hc', node', store', word') \<Longrightarrow>
     hc' = hc \<and> word' = word \<and> size node' = size node"
  "find_words_trie_find_words_around_dom (Inr (hc, node, store, word, column, label, offs)) \<Longrightarrow>
     find_words_around hc node store word column label offs = Inr (hc', node', store', word') \<Longrightarrow>
     hc' = hc \<and> word' = word \<and> size node' = size node"
proof (induction hc node store word column label and hc node store word column label offs
       arbitrary: hc' node' store' word' and hc' node' store' word'
       rule: find_words_trie_find_words_around.pinduct)
  case (1 hc node store word column label)
  note eq = "1.prems" [unfolded find_words_trie.psimps [OF "1.hyps"]]
  show ?case
  proof (cases "enter hc node store word column label")
    case (Inl e)
    with eq show ?thesis by simp
  next
    case (Inr ent)
    show ?thesis
    proof (cases ent)
      case (Return st)
      with Inr eq enter_Return [of hc node store word column label st] show ?thesis
        by simp
    next
      case (Descend c hc1 n1 s1 w1)
      with Inr have en: "enter hc node store word column label = Inr (Descend c hc1 n1 s1 w1)"
        by simp
      from eq en have eq':
        "(case find_words_around hc1 n1 s1 w1 column label neighbours of
            Inl e \<Rightarrow> Inl e
          | Inr st \<Rightarrow> leave node c column label st) = Inr (hc', node', store', word')"
        by simp
      then obtain hc2 n2 s2 w2 where
        ar: "find_words_around hc1 n1 s1 w1 column label neighbours = Inr (hc2, n2, s2, w2)" and
        lv: "leave node c column label (hc2, n2, s2, w2) = Inr (hc', node', store', word')"
        by (cases "find_words_around hc1 n1 s1 w1 column label neighbours") auto
      from "1.IH" [OF en refl ar] have k: "hc2 = hc1" "w2 = w1" "size n2 = size n1"
        by simp_all
      from lv k leave_restores [OF en, of n2 s2] enter_Descend_size [OF en] show ?thesis
        by auto
    qed
  qed
next
  case (2 hc node store word column label)
  then show ?case by (simp add: find_words_around.psimps)
next
  case (3 hc node store word column label i j rest)
  note eq = "3.prems" [unfolded find_words_around.psimps(2) [OF "3.hyps"]]
  show ?case
  proof (cases "column + i = column \<and> label + j = label")
    case True
    with eq "3.IH"(3) show ?thesis by simp
  next
    case False
    with eq have eq':
      "(case find_words_trie hc node store word (column + i) (label + j) of
          Inl e \<Rightarrow> Inl e
        | Inr (hc', node', store', word') \<Rightarrow>
            find_words_around hc' node' store' word' column label rest) =
       Inr (hc', node', store', word')"
      by simp
    then obtain hc1 n1 s1 w1 where
      t: "find_words_trie hc node store word (column + i) (label + j) = Inr (hc1, n1, s1, w1)" and
      a: "find_words_around hc1 n1 s1 w1 column label rest = Inr (hc', node', store', word')"
      by (cases "find_words_trie hc node store word (column + i) (label + j)") auto
    from "3.IH"(1) [OF False t] "3.IH"(2) [OF False t refl refl refl a] show ?thesis
      by simp
  qed
qed

lemma search_dom: "All find_words_trie_find_words_around_dom"
proof (rule "find_words_trie_find_words_around.termination"
         [where R = "inv_image (less_than <*lex*> less_than)
         (\<lambda>x. case x of Inl (hc, node, store, word, column, label) \<Rightarrow> (size node, 0)
                   | Inr (hc, node, store, word, column, label, offs) \<Rightarrow>
                       (size node, Suc (length offs)))"],
       goal_cases)
  case 1
  show ?case by (intro wf_inv_image wf_lex_prod wf_less_than)
next
  case (2 hc node store word column label b c hc1 n1 s1 w1)
  then have "size n1 < size node"
    using enter_Descend_size [of hc node store word column label c hc1 n1 s1 w1] by simp
  then show ?case by simp
next
  case 3
  show ?case by simp
next
  case prems: (4 hc node store word column label i j rest b hc' y node' ya store' word')
  from prems have
    "find_words_trie hc node store word (column + i) (label + j) = Inr (hc', node', store', word')"
    by auto
  from frame_dom(1) [OF prems(6) this] show ?case
    by simp
next
  case 5
  show ?case by simp
qed

termination find_words_trie
  using search_dom by blast


declare find_words_trie.simps [simp del]

lemma find_words_trie_frame:
  "find_words_trie hc node store word column label = Inr (hc', node', store', word') \<Longrightarrow>
     hc' = hc \<and> word' = word"
  using frame_dom(1) search_dom by blast

lemma find_words_around_frame:
  "find_words_around hc node store word column label offs = Inr (hc', node', store', word') \<Longrightarrow>
     hc' = hc \<and> word' = word"
  using frame_dom(2) search_dom by blast

lemma find_words_trie_Inl:
  "enter hc node store word column label = Inl e \<Longrightarrow>
     find_words_trie hc node store word column label = Inl e"
  by (simp add: find_words_trie.simps)

lemma find_words_trie_Return:
  "enter hc node store word column label = Inr (Return st) \<Longrightarrow>
     find_words_trie hc node store word column label = Inr (hc, node, store, word)"
  using enter_Return [of hc node store word column label st]
  by (simp add: find_words_trie.simps)

lemma find_words_trie_Descend:
  assumes "enter hc node store word column label = Inr (Descend c hc1 n1 s1 w1)"
  shows "find_words_trie hc node store word column label =
     (case find_words_around hc1 n1 s1 w1 column label neighbours of
        Inl e \<Rightarrow> Inl e
      | Inr (hc2, n2, s2, w2) \<Rightarrow> Inr (hc, set_child node (CHAR_TO_INDEX c) n2, s2, word))"
proof (cases "find_words_around hc1 n1 s1 w1 column label neighbours")
  case (Inl e)
  with assms show ?thesis
    by (simp add: find_words_trie.simps)
next
  case (Inr st)
  obtain hc2 n2 s2 w2 where st: "st = (hc2, n2, s2, w2)"
    by (cases st)
  from Inr st find_words_around_frame have "hc2 = hc1" "w2 = w1"
    by blast+
  with assms Inr st leave_restores [OF assms, of n2 s2] show ?thesis
    by (simp add: find_words_trie.simps)
qed

lemma find_words_around_Cons:
  "find_words_around hc node store word column label ((i, j) # rest) =
     (if i = 0 \<and> j = 0 then find_words_around hc node store word column label rest
      else (case find_words_trie hc node store word (column + i) (label + j) of
              Inl e \<Rightarrow> Inl e
            | Inr (hc', node', store', word') \<Rightarrow>
                find_words_around hc node' store' word column label rest))"
proof (cases "find_words_trie hc node store word (column + i) (label + j)")
  case (Inl e)
  then show ?thesis by simp
next
  case (Inr st)
  obtain hc' n' s' w' where st: "st = (hc', n', s', w')"
    by (cases st)
  from Inr st find_words_trie_frame have "hc' = hc" "w' = word"
    by blast+
  with Inr st show ?thesis by simp
qed

declare find_words_around.simps(2) [simp del]

lemma search_induct [case_names Trie Nil Cons]:
  assumes trie: "\<And>hc node store word column label.
      (\<And>c hc1 n1 s1 w1.
          enter hc node store word column label = Inr (Descend c hc1 n1 s1 w1) \<Longrightarrow>
          Q hc1 n1 s1 w1 column label neighbours) \<Longrightarrow>
      P hc node store word column label"
    and nil: "\<And>hc node store word column label. Q hc node store word column label []"
    and cons: "\<And>hc node store word column label i j rest.
      (\<not> (i = 0 \<and> j = 0) \<Longrightarrow> P hc node store word (column + i) (label + j)) \<Longrightarrow>
      (\<And>node' store'.
          \<not> (i = 0 \<and> j = 0) \<Longrightarrow>
          find_words_trie hc node store word (column + i) (label + j) =
            Inr (hc, node', store', word) \<Longrightarrow>
          Q hc node' store' word column label rest) \<Longrightarrow>
      (i = 0 \<and> j = 0 \<Longrightarrow> Q hc node store word column label rest) \<Longrightarrow>
      Q hc node store word column label ((i, j) # rest)"
  shows "P hc node store word column label"
    and "Q hc node store word column label offs"
proof (induction hc node store word column label and hc node store word column label offs
       rule: find_words_trie_find_words_around.induct)
  case (1 hc node store word column label)
  show ?case
    by (rule trie) (rule "1.IH" [OF _ refl])
next
  case (2 hc node store word column label)
  show ?case by (rule nil)
next
  case (3 hc node store word column label i j rest)
  show ?case
  proof (rule cons)
    assume "\<not> (i = 0 \<and> j = 0)"
    then show "P hc node store word (column + i) (label + j)"
      using "3.IH"(1) by simp
  next
    fix node' store'
    assume "\<not> (i = 0 \<and> j = 0)"
      and "find_words_trie hc node store word (column + i) (label + j) =
             Inr (hc, node', store', word)"
    then show "Q hc node' store' word column label rest"
      using "3.IH"(2) [OF _ _ refl refl refl] by simp
  next
    assume "i = 0 \<and> j = 0"
    then show "Q hc node store word column label rest"
      using "3.IH"(3) by simp
  qed
qed


lemma find_words_trie_frame_full:
  "find_words_trie hc node store word column label = Inr st \<Longrightarrow>
     \<exists>node' store'. st = (hc, node', store', word)"
  using find_words_trie_frame [of hc node store word column label] by (cases st) auto

function find_words_labels ::
    "honeycomb \<Rightarrow> trie_node \<Rightarrow> word_store \<Rightarrow> int \<Rightarrow> int
       \<Rightarrow> fault + (honeycomb \<times> trie_node \<times> word_store)" where
  "find_words_labels hc root store i j =
     (case column_at hc i of
        Inl e \<Rightarrow> Inl e
      | Inr s \<Rightarrow>
          if j < int (length s)
          then (case find_words_trie hc root store [] i j of
                  Inl e \<Rightarrow> Inl e
                | Inr (hc', root', store', word') \<Rightarrow>
                    find_words_labels hc' root' store' i (j + 1))
          else Inr (hc, root, store))"
  by pat_completeness auto
termination
proof (relation "measure (\<lambda>(hc, root, store, i, j).
          nat ((case column_at hc i of Inl e \<Rightarrow> 0 | Inr s \<Rightarrow> int (length s)) - j))",
       goal_cases)
  case 1
  show ?case by simp
next
  case prems: (2 hc root store i j s st hc' y root' ya store' word')
  from prems have "find_words_trie hc root store [] i j = Inr (hc', root', store', word')"
    by simp
  from find_words_trie_frame [OF this] prems(1,2) show ?case
    by simp
qed

declare find_words_labels.simps [simp del]

lemma find_words_labels_frame:
  "find_words_labels hc root store i j = Inr (hc', root', store') \<Longrightarrow> hc' = hc"
proof (induction hc root store i j rule: find_words_labels.induct)
  case (1 hc root store i j)
  from "1.prems" obtain s where s: "column_at hc i = Inr s"
    by (subst (asm) find_words_labels.simps) (auto split: sum.splits)
  show ?case
  proof (cases "j < int (length s)")
    case False
    with "1.prems" s show ?thesis
      by (subst (asm) find_words_labels.simps) simp
  next
    case True
    with "1.prems" s obtain hc1 root1 store1 word1 where
      t: "find_words_trie hc root store [] i j = Inr (hc1, root1, store1, word1)" and
      l: "find_words_labels hc1 root1 store1 i (j + 1) = Inr (hc', root', store')"
      by (subst (asm) find_words_labels.simps) (auto split: sum.splits)
    from "1.IH" [OF s True t refl refl refl l] find_words_trie_frame [OF t] show ?thesis
      by simp
  qed
qed

function find_words_columns ::
    "honeycomb \<Rightarrow> trie_node \<Rightarrow> word_store \<Rightarrow> int
       \<Rightarrow> fault + (honeycomb \<times> trie_node \<times> word_store)" where
  "find_words_columns hc root store i =
     (if i < number_columns hc
      then (case find_words_labels hc root store i 0 of
              Inl e \<Rightarrow> Inl e
            | Inr (hc', root', store') \<Rightarrow> find_words_columns hc' root' store' (i + 1))
      else Inr (hc, root, store))"
  by pat_completeness auto
termination
proof (relation "measure (\<lambda>(hc, root, store, i). nat (number_columns hc - i))", goal_cases)
  case 1
  show ?case by simp
next
  case prems: (2 hc root store i st hc' y root' store')
  from prems have "find_words_labels hc root store i 0 = Inr (hc', root', store')"
    by simp
  from find_words_labels_frame [OF this] prems(1) show ?case
    by simp
qed

declare find_words_columns.simps [simp del]

definition find_words ::
    "honeycomb \<Rightarrow> trie_node \<Rightarrow> word_store \<Rightarrow> fault + (honeycomb \<times> trie_node \<times> word_store)" where
  "find_words hc root store = find_words_columns hc root store 0"

subsection \<open>Well-formed honeycombs and the calls of \<open>find_words\<close>\<close>

text \<open>
  The honeycomb that \<^verbatim>\<open>main\<close> hands to \<open>find_words\<close>: \<^verbatim>\<open>number_columns\<close> is the
  length of the array of columns and no column is \<^verbatim>\<open>NULL\<close>.
\<close>

definition wf_honeycomb :: "honeycomb \<Rightarrow> bool" where
  "wf_honeycomb hc \<longleftrightarrow>
     number_columns hc = int (length (columns hc)) \<and> list_all (\<lambda>s. s \<noteq> None) (columns hc)"

text \<open>
  The coordinate names a cell: the negation of the first four disjuncts of the sanity
  check.
\<close>

definition in_grid :: "honeycomb \<Rightarrow> int \<Rightarrow> int \<Rightarrow> bool" where
  "in_grid hc column label \<longleftrightarrow>
     0 \<le> column \<and> column < number_columns hc \<and> 0 \<le> label \<and>
     (case column_at hc column of Inl e \<Rightarrow> False | Inr s \<Rightarrow> label < int (length s))"

text \<open>
  \<^verbatim>\<open>strlen(hc->columns[i])\<close>, and 0 where there is no such string.
\<close>

definition column_length :: "honeycomb \<Rightarrow> int \<Rightarrow> int" where
  "column_length hc i = (case column_at hc i of Inl e \<Rightarrow> 0 | Inr s \<Rightarrow> int (length s))"

text \<open>
  The coordinates that the loops of \<open>find_words\<close> run through, from column \<open>i\<close> on,
  in their order.
\<close>

definition cells_from :: "honeycomb \<Rightarrow> int \<Rightarrow> (int \<times> int) list" where
  "cells_from hc i =
     concat (map (\<lambda>i. map (Pair i) [0..column_length hc i - 1]) [i..number_columns hc - 1])"

definition cells :: "honeycomb \<Rightarrow> (int \<times> int) list" where
  "cells hc = cells_from hc 0"

text \<open>
  The calls \<^verbatim>\<open>find_words_trie(hc, root, store, word, i, j)\<close> with an empty word, one
  after the other for a list of coordinates.
\<close>

fun top_calls ::
    "honeycomb \<Rightarrow> trie_node \<Rightarrow> word_store \<Rightarrow> (int \<times> int) list
       \<Rightarrow> fault + (honeycomb \<times> trie_node \<times> word_store)" where
  "top_calls hc root store [] = Inr (hc, root, store)"
| "top_calls hc root store ((i, j) # cs) =
     (case find_words_trie hc root store [] i j of
        Inl e \<Rightarrow> Inl e
      | Inr (hc', root', store', word') \<Rightarrow> top_calls hc' root' store' cs)"

text \<open>
  Every column from \<open>i\<close> on can be read.
\<close>

definition columns_ok :: "honeycomb \<Rightarrow> int \<Rightarrow> bool" where
  "columns_ok hc i \<longleftrightarrow> (\<forall>k. i \<le> k \<and> k < number_columns hc \<longrightarrow> (\<exists>s. column_at hc k = Inr s))"

text \<open>
  Every cell holds a letter from A to Z or the marker; every cell holds a letter.
\<close>

definition grid_symbols :: "honeycomb \<Rightarrow> bool" where
  "grid_symbols hc \<longleftrightarrow>
     (\<forall>s \<in> set (columns hc). case s of None \<Rightarrow> True
        | Some s \<Rightarrow> (\<forall>c \<in> set s. is_symbol c \<or> c = CHR ''-''))"

definition all_symbols :: "honeycomb \<Rightarrow> bool" where
  "all_symbols hc \<longleftrightarrow>
     (\<forall>s \<in> set (columns hc). case s of None \<Rightarrow> True | Some s \<Rightarrow> (\<forall>c \<in> set s. is_symbol c))"

subsection \<open>Example inputs\<close>

text \<open>
  A dictionary file with the lines AD, DA, BED and GEC, the trie that \<open>fill_trie\<close>
  builds from it, and a honeycomb of two layers: the columns AB, CDE and FG.
\<close>

definition example_dictionary :: string where
  "example_dictionary =
     ''AD'' @ [CHR 0x0A] @ ''DA'' @ [CHR 0x0A] @ ''BED'' @ [CHR 0x0A] @ ''GEC'' @ [CHR 0x0A]"

definition example_root :: trie_node where
  "example_root = projr (fill_trie get_trienode example_dictionary)"

definition example_honeycomb :: honeycomb where
  "example_honeycomb = \<lparr>number_columns = 3, columns = [Some ''AB'', Some ''CDE'', Some ''FG'']\<rparr>"

subsection \<open>Insertion is idempotent\<close>

lemma child_at_set_child_same:
  "child_at node index = Inr child \<Longrightarrow>
     child_at (set_child node index child') index = Inr (Some child')"
  by (auto simp: child_at_def set_child_def split: if_splits)

lemma set_child_idem:
  "child_at node index = Inr child \<Longrightarrow>
     set_child (set_child node index child') index child' = set_child node index child'"
  by (simp add: set_child_def)

text \<open>
  C8.  Inserting a word that has just been inserted returns the very same trie: no
  node is created, no child pointer changes, and the terminal flag of the word's last
  node, already true, stays true.
\<close>

theorem insert_trie_twice:
  "insert_trie root key = Inr t \<Longrightarrow> insert_trie t key = Inr t"
proof (induction key arbitrary: root t)
  case Nil
  then show ?case by auto
next
  case (Cons c key)
  from Cons.prems obtain child child' where
    c: "child_at root (CHAR_TO_INDEX c) = Inr child" and
    i: "insert_trie (case child of None \<Rightarrow> get_trienode | Some n \<Rightarrow> n) key = Inr child'" and
    t: "t = set_child root (CHAR_TO_INDEX c) child'"
    by (auto split: sum.splits)
  have "insert_trie child' key = Inr child'"
    using Cons.IH [OF i] .
  then show ?case
    using c t by (simp add: child_at_set_child_same set_child_idem)
qed

theorem insert_trie_twice_witness:
  "insert_trie get_trienode ''AB'' =
     Inr (set_child get_trienode 0
            (set_child get_trienode 1 (Trie_Node True (replicate ALPHABET_SIZE None)))) \<and>
   insert_trie (set_child get_trienode 0
            (set_child get_trienode 1 (Trie_Node True (replicate ALPHABET_SIZE None)))) ''AB'' =
     Inr (set_child get_trienode 0
            (set_child get_trienode 1 (Trie_Node True (replicate ALPHABET_SIZE None))))"
proof -
  have h: "insert_trie get_trienode ''AB'' =
     Inr (set_child get_trienode 0
            (set_child get_trienode 1 (Trie_Node True (replicate ALPHABET_SIZE None))))"
    by (simp add: child_at_def CHAR_TO_INDEX_def get_trienode_def ALPHABET_SIZE_def)
  show ?thesis
    using h insert_trie_twice [OF h] by simp
qed

subsection \<open>Trie membership\<close>

lemma CHAR_TO_INDEX_eq_iff: "CHAR_TO_INDEX c = CHAR_TO_INDEX d \<longleftrightarrow> c = d"
  by (auto simp: CHAR_TO_INDEX_def)

lemma CHAR_TO_INDEX_range:
  "is_symbol c \<longleftrightarrow> 0 \<le> CHAR_TO_INDEX c \<and> CHAR_TO_INDEX c < int ALPHABET_SIZE"
  by (auto simp: is_symbol_def CHAR_TO_INDEX_def ALPHABET_SIZE_def)

lemma child_at_set_child_other:
  "index' \<noteq> index \<Longrightarrow> 0 \<le> index \<Longrightarrow>
     child_at (set_child node index child') index' = child_at node index'"
  by (auto simp: child_at_def set_child_def nat_eq_iff)

lemma child_at_get_trienode:
  "child_at get_trienode index = Inr child \<Longrightarrow> child = None"
  by (auto simp: child_at_def get_trienode_def split: if_splits)

lemma is_word_Nil [simp]: "is_word node [] = is_end node"
  by (simp add: is_word_def)

lemma is_word_Cons:
  "is_word node (c # key) =
     (case child_at node (CHAR_TO_INDEX c) of Inr (Some n) \<Rightarrow> is_word n key | _ \<Rightarrow> False)"
  by (simp add: is_word_def split: sum.splits option.splits)

lemma is_word_get_trienode [simp]: "\<not> is_word get_trienode key"
proof (cases key)
  case Nil
  then show ?thesis by (simp add: get_trienode_def)
next
  case (Cons c k)
  then show ?thesis
    by (auto simp: is_word_Cons dest: child_at_get_trienode split: sum.splits option.splits)
qed

lemma child_at_flagged [simp]: "child_at (Trie_Node e (next' node)) index = child_at node index"
  by (simp add: child_at_def)

lemma is_word_insert_trie:
  "insert_trie root w = Inr root' \<Longrightarrow> is_word root' key \<longleftrightarrow> key = w \<or> is_word root key"
proof (induction w arbitrary: root root' key)
  case Nil
  then show ?case
    by (cases key) (auto simp: is_word_Cons)
next
  case (Cons d w)
  from Cons.prems obtain child child' where
    c: "child_at root (CHAR_TO_INDEX d) = Inr child" and
    i: "insert_trie (case child of None \<Rightarrow> get_trienode | Some n \<Rightarrow> n) w = Inr child'" and
    r: "root' = set_child root (CHAR_TO_INDEX d) child'"
    by (auto split: sum.splits)
  from c have nonneg: "0 \<le> CHAR_TO_INDEX d"
    by (auto simp: child_at_def split: if_splits)
  show ?case
  proof (cases key)
    case Nil
    then show ?thesis
      by (simp add: r set_child_def)
  next
    case (Cons c k)
    show ?thesis
    proof (cases "c = d")
      case True
      have "is_word root' key = is_word child' k"
        using Cons True r child_at_set_child_same [OF c] by (simp add: is_word_Cons)
      also have "\<dots> \<longleftrightarrow> k = w \<or> is_word (case child of None \<Rightarrow> get_trienode | Some n \<Rightarrow> n) k"
        by (rule Cons.IH [OF i])
      also have "is_word (case child of None \<Rightarrow> get_trienode | Some n \<Rightarrow> n) k = is_word root key"
        using Cons True c by (simp add: is_word_Cons split: option.splits)
      finally show ?thesis
        using Cons True by simp
    next
      case False
      then have "CHAR_TO_INDEX c \<noteq> CHAR_TO_INDEX d"
        by (simp add: CHAR_TO_INDEX_eq_iff)
      then show ?thesis
        using Cons False r nonneg by (simp add: is_word_Cons child_at_set_child_other)
    qed
  qed
qed

lemma is_word_fill_trie:
  "fill_trie root fp = Inr root' \<Longrightarrow>
     is_word root' key \<longleftrightarrow> key \<in> set (dictionary_keys fp) \<or> is_word root key"
proof (induction root fp arbitrary: root' rule: fill_trie.induct)
  case (1 root fp)
  show ?case
  proof (cases "fgets WORD_SIZE fp")
    case None
    with "1.prems" show ?thesis
      by (simp add: fill_trie.simps [of root fp] dictionary_keys.simps [of fp])
  next
    case (Some a)
    obtain word fp' where a: "a = (word, fp')"
      by (cases a)
    from "1.prems" Some a obtain k root1 where
      k: "chop (c_string word) = Inr k" and
      i: "insert_trie root k = Inr root1" and
      f: "fill_trie root1 fp' = Inr root'"
      by (auto simp: fill_trie.simps [of root fp] split: sum.splits)
    from k have k': "k = butlast (c_string word)"
      by (auto simp: chop_def split: if_splits)
    have "dictionary_keys fp = k # dictionary_keys fp'"
      using Some a k' by (simp add: dictionary_keys.simps [of fp])
    with "1.IH" [OF Some a [symmetric] k i f] is_word_insert_trie [OF i]
    show ?thesis by auto
  qed
qed

lemma wf_trie_get_trienode [simp]: "wf_trie get_trienode"
  by (simp add: get_trienode_def)

lemma wf_trie_child:
  "wf_trie node \<Longrightarrow> child_at node index = Inr (Some n) \<Longrightarrow> wf_trie n"
proof -
  assume w: "wf_trie node" and c: "child_at node index = Inr (Some n)"
  obtain e cs where node: "node = Trie_Node e cs"
    by (cases node)
  from c node have "nat index < length cs" and "cs ! nat index = Some n"
    by (auto simp: child_at_def split: if_splits)
  then have "Some n \<in> set cs"
    by (metis nth_mem)
  with w node show ?thesis
    by fastforce
qed

lemma wf_trie_set_child:
  "wf_trie node \<Longrightarrow> wf_trie n \<Longrightarrow> wf_trie (set_child node index n)"
proof -
  assume w: "wf_trie node" and n: "wf_trie n"
  obtain e cs where node: "node = Trie_Node e cs"
    by (cases node)
  have "set (cs[nat index := Some n]) \<subseteq> insert (Some n) (set cs)"
    by (rule set_update_subset_insert)
  with w n node show ?thesis
    by (auto simp: set_child_def)
qed

lemma wf_trie_insert_trie:
  "insert_trie root w = Inr root' \<Longrightarrow> wf_trie root \<Longrightarrow> wf_trie root'"
proof (induction w arbitrary: root root')
  case Nil
  then show ?case by (cases root) auto
next
  case (Cons d w)
  from Cons.prems(1) obtain child child' where
    c: "child_at root (CHAR_TO_INDEX d) = Inr child" and
    i: "insert_trie (case child of None \<Rightarrow> get_trienode | Some n \<Rightarrow> n) w = Inr child'" and
    r: "root' = set_child root (CHAR_TO_INDEX d) child'"
    by (auto split: sum.splits)
  have "wf_trie (case child of None \<Rightarrow> get_trienode | Some n \<Rightarrow> n)"
    using c Cons.prems(2) wf_trie_child by (auto split: option.splits)
  from Cons.IH [OF i this] Cons.prems(2) r show ?case
    by (simp add: wf_trie_set_child)
qed

lemma wf_trie_fill_trie:
  "fill_trie root fp = Inr root' \<Longrightarrow> wf_trie root \<Longrightarrow> wf_trie root'"
proof (induction root fp arbitrary: root' rule: fill_trie.induct)
  case (1 root fp)
  show ?case
  proof (cases "fgets WORD_SIZE fp")
    case None
    with "1.prems" show ?thesis
      by (simp add: fill_trie.simps [of root fp])
  next
    case (Some a)
    obtain word fp' where a: "a = (word, fp')"
      by (cases a)
    from "1.prems"(1) Some a obtain k root1 where
      k: "chop (c_string word) = Inr k" and
      i: "insert_trie root k = Inr root1" and
      f: "fill_trie root1 fp' = Inr root'"
      by (auto simp: fill_trie.simps [of root fp] split: sum.splits)
    from "1.IH" [OF Some a [symmetric] k i f] wf_trie_insert_trie [OF i "1.prems"(2)]
    show ?thesis by simp
  qed
qed

lemma child_at_wf:
  "wf_trie node \<Longrightarrow> is_symbol c \<Longrightarrow> \<exists>child. child_at node (CHAR_TO_INDEX c) = Inr child"
  by (cases node) (auto simp: child_at_def CHAR_TO_INDEX_range ALPHABET_SIZE_def)

lemma descend_wf:
  "wf_trie node \<Longrightarrow> \<forall>c \<in> set key. is_symbol c \<Longrightarrow> \<exists>r. descend node key = Inr r"
proof (induction key arbitrary: node)
  case Nil
  then show ?case by simp
next
  case (Cons c key)
  from Cons.prems child_at_wf [of node c] obtain child where
    c: "child_at node (CHAR_TO_INDEX c) = Inr child"
    by auto
  show ?case
  proof (cases child)
    case None
    with c show ?thesis by simp
  next
    case (Some n)
    with c Cons.prems wf_trie_child have "wf_trie n"
      by blast
    from Cons.IH [OF this] Cons.prems(2) c Some show ?thesis
      by simp
  qed
qed

text \<open>
  C6.  After \<open>fill_trie\<close> has built the trie from a dictionary file, the walk down
  the trie along an inserted word ends at a node whose terminal flag is set; the walk
  along a sequence of symbols that was not inserted meets a null child or ends at a
  node whose flag is not set.  (A symbol is a letter from A to Z; for another character
  the index computed by \<open>CHAR_TO_INDEX\<close> is outside the array of children.)
\<close>

theorem trie_membership:
  assumes "fill_trie get_trienode fp = Inr root"
  shows "(\<forall>W \<in> set (dictionary_keys fp). \<exists>n. descend root W = Inr (Some n) \<and> is_end n) \<and>
         (\<forall>key. key \<notin> set (dictionary_keys fp) \<and> (\<forall>c \<in> set key. is_symbol c) \<longrightarrow>
            descend root key = Inr None \<or> (\<exists>n. descend root key = Inr (Some n) \<and> \<not> is_end n))"
proof (intro conjI ballI allI impI)
  fix W
  assume "W \<in> set (dictionary_keys fp)"
  with is_word_fill_trie [OF assms, of W] have "is_word root W"
    by simp
  then show "\<exists>n. descend root W = Inr (Some n) \<and> is_end n"
    by (auto simp: is_word_def split: sum.splits option.splits)
next
  fix key
  assume k: "key \<notin> set (dictionary_keys fp) \<and> (\<forall>c \<in> set key. is_symbol c)"
  with is_word_fill_trie [OF assms, of key] have n: "\<not> is_word root key"
    by simp
  from wf_trie_fill_trie [OF assms] k descend_wf [of root key] obtain r where
    "descend root key = Inr r"
    by auto
  with n show "descend root key = Inr None \<or> (\<exists>n. descend root key = Inr (Some n) \<and> \<not> is_end n)"
    by (cases r) (auto simp: is_word_def)
qed

theorem trie_membership_witness:
  "fill_trie get_trienode example_dictionary = Inr example_root \<and>
   ''BED'' \<in> set (dictionary_keys example_dictionary) \<and>
   is_word example_root ''BED'' \<and>
   ''BE'' \<notin> set (dictionary_keys example_dictionary) \<and>
   list_all is_symbol ''BE'' \<and>
   \<not> is_word example_root ''BE''"
proof -
  have h: "fill_trie get_trienode example_dictionary = Inr example_root"
    by code_simp
  have k1: "''BED'' \<in> set (dictionary_keys example_dictionary)"
    by code_simp
  have k2: "''BE'' \<notin> set (dictionary_keys example_dictionary)"
    by code_simp
  have k3: "list_all is_symbol ''BE''"
    by code_simp
  note m = trie_membership [OF h]
  from m k1 have "\<exists>n. descend example_root ''BED'' = Inr (Some n) \<and> is_end n"
    by blast
  then have w1: "is_word example_root ''BED''"
    unfolding is_word_def by auto
  from k2 k3 have "''BE'' \<notin> set (dictionary_keys example_dictionary) \<and> (\<forall>c \<in> set ''BE''. is_symbol c)"
    unfolding list_all_iff by blast
  with m have "descend example_root ''BE'' = Inr None \<or>
      (\<exists>n. descend example_root ''BE'' = Inr (Some n) \<and> \<not> is_end n)"
    by blast
  then have w2: "\<not> is_word example_root ''BE''"
    unfolding is_word_def by auto
  from h k1 w1 k2 k3 w2 show ?thesis
    by blast
qed


subsection \<open>A last line without a newline\<close>

text \<open>
  C9.  \<open>fill_trie\<close> removes the last character of what \<^verbatim>\<open>fgets\<close> returns, newline
  or not.  From a file whose last line does not end in a newline it inserts that line
  without its last letter: the file with the lines DOG and CAT, and no newline after
  CAT, gives the keys DOG and CA.
\<close>

theorem fill_trie_unterminated_line:
  "dictionary_keys (''DOG'' @ [CHR 0x0A] @ ''CAT'') = [''DOG'', ''CA''] \<and>
   map_sum id (\<lambda>root. (is_word root ''DOG'', is_word root ''CAT'', is_word root ''CA''))
     (fill_trie get_trienode (''DOG'' @ [CHR 0x0A] @ ''CAT'')) = Inr (True, False, True)"
  by code_simp

subsection \<open>The search restores the honeycomb and the word\<close>

lemma find_words_columns_frame:
  "find_words_columns hc root store i = Inr (hc', root', store') \<Longrightarrow> hc' = hc"
proof (induction hc root store i rule: find_words_columns.induct)
  case (1 hc root store i)
  show ?case
  proof (cases "i < number_columns hc")
    case False
    with "1.prems" show ?thesis
      by (simp add: find_words_columns.simps [of hc root store i])
  next
    case True
    with "1.prems" obtain hc1 root1 store1 where
      l: "find_words_labels hc root store i 0 = Inr (hc1, root1, store1)" and
      c: "find_words_columns hc1 root1 store1 (i + 1) = Inr (hc', root', store')"
      by (auto simp: find_words_columns.simps [of hc root store i] split: sum.splits)
    from "1.IH" [OF True l refl refl c] find_words_labels_frame [OF l] show ?thesis
      by simp
  qed
qed

lemma find_words_frame:
  "find_words hc root store = Inr (hc', root', store') \<Longrightarrow> hc' = hc"
  unfolding find_words_def by (rule find_words_columns_frame)

text \<open>
  C3.  A call of \<open>find_words_trie\<close> that returns leaves the honeycomb and the word
  buffer as it found them: the cell it marked holds its character again, and the
  character it appended to the word is removed.  So does every call of the loops of
  \<open>find_words\<close>, and after \<open>find_words\<close> every cell of the honeycomb holds the
  character it held before.
\<close>

theorem search_restores:
  "(find_words_trie hc node store word column label = Inr (hc', node', store', word') \<longrightarrow>
      hc' = hc \<and> word' = word) \<and>
   (find_words hc root store0 = Inr (hc'', root', store'') \<longrightarrow> hc'' = hc)"
  using find_words_trie_frame find_words_frame by blast

theorem search_restores_witness:
  "\<not> isl (find_words_trie example_honeycomb example_root [] ''B'' 1 2) \<and>
   fst (projr (find_words_trie example_honeycomb example_root [] ''B'' 1 2)) = example_honeycomb \<and>
   snd (snd (snd (projr (find_words_trie example_honeycomb example_root [] ''B'' 1 2)))) = ''B'' \<and>
   \<not> isl (find_words example_honeycomb example_root []) \<and>
   fst (projr (find_words example_honeycomb example_root [])) = example_honeycomb"
proof -
  let ?t = "find_words_trie example_honeycomb example_root [] ''B'' 1 2"
  let ?f = "find_words example_honeycomb example_root []"
  have t: "\<not> isl ?t"
    by code_simp
  then obtain hc' node' store' word' where t': "?t = Inr (hc', node', store', word')"
    by (cases ?t) auto
  have f: "\<not> isl ?f"
    by code_simp
  then obtain hc'' root' store'' where f': "?f = Inr (hc'', root', store'')"
    by (cases ?f) auto
  from t' search_restores have "hc' = example_honeycomb \<and> word' = ''B''"
    by blast
  moreover from f' search_restores have "hc'' = example_honeycomb"
    by blast
  ultimately show ?thesis
    using t t' f f' by simp
qed


subsection \<open>The loops of \<open>find_words\<close> as a list of calls\<close>

lemma top_calls_Cons:
  "top_calls hc root store ((i, j) # cs) =
     (case find_words_trie hc root store [] i j of
        Inl e \<Rightarrow> Inl e
      | Inr (hc', root', store', word') \<Rightarrow> top_calls hc root' store' cs)"
  using find_words_trie_frame [of hc root store "[]" i j]
  by (auto split: sum.splits)

declare top_calls.simps(2) [simp del]

lemma top_calls_frame:
  "top_calls hc root store cs = Inr (hc', root', store') \<Longrightarrow> hc' = hc"
  by (induction cs arbitrary: root store)
     (auto simp: top_calls_Cons split: sum.splits)

lemma top_calls_append:
  "top_calls hc root store (xs @ ys) =
     (case top_calls hc root store xs of
        Inl e \<Rightarrow> Inl e
      | Inr (hc', root', store') \<Rightarrow> top_calls hc root' store' ys)"
proof (induction xs arbitrary: root store)
  case Nil
  show ?case by simp
next
  case (Cons x xs)
  obtain i j where x: "x = (i, j)"
    by (cases x)
  show ?case
    using Cons.IH by (auto simp: x top_calls_Cons split: sum.splits)
qed

lemma find_words_labels_top_calls:
  "column_at hc i = Inr s \<Longrightarrow>
     find_words_labels hc root store i j =
       top_calls hc root store (map (Pair i) [j..int (length s) - 1])"
proof (induction hc root store i j rule: find_words_labels.induct)
  case (1 hc root store i j)
  note s = "1.prems"
  show ?case
  proof (cases "j < int (length s)")
    case False
    with s show ?thesis
      by (simp add: find_words_labels.simps [of hc root store i j])
  next
    case True
    then have u: "[j..int (length s) - 1] = j # [j + 1..int (length s) - 1]"
      by (simp add: upto_rec1)
    show ?thesis
    proof (cases "find_words_trie hc root store [] i j")
      case (Inl e)
      with s True u show ?thesis
        by (simp add: find_words_labels.simps [of hc root store i j] top_calls_Cons)
    next
      case (Inr st)
      obtain hc' root' store' word' where st: "st = (hc', root', store', word')"
        by (cases st)
      from Inr st find_words_trie_frame have hc': "hc' = hc"
        by blast
      from "1.IH" [OF s True Inr [unfolded st] refl refl refl] s hc'
      have "find_words_labels hc root' store' i (j + 1) =
              top_calls hc root' store' (map (Pair i) [j + 1..int (length s) - 1])"
        by simp
      with s True u Inr st hc' show ?thesis
        by (simp add: find_words_labels.simps [of hc root store i j] top_calls_Cons)
    qed
  qed
qed

lemma cells_from_rec:
  "i < number_columns hc \<Longrightarrow>
     cells_from hc i = map (Pair i) [0..column_length hc i - 1] @ cells_from hc (i + 1)"
  by (simp add: cells_from_def upto_rec1)

lemma cells_from_empty: "\<not> i < number_columns hc \<Longrightarrow> cells_from hc i = []"
  by (simp add: cells_from_def)

lemma find_words_columns_top_calls:
  "columns_ok hc i \<Longrightarrow>
     find_words_columns hc root store i = top_calls hc root store (cells_from hc i)"
proof (induction hc root store i rule: find_words_columns.induct)
  case (1 hc root store i)
  show ?case
  proof (cases "i < number_columns hc")
    case False
    then show ?thesis
      by (simp add: find_words_columns.simps [of hc root store i] cells_from_empty)
  next
    case True
    with "1.prems" obtain s where s: "column_at hc i = Inr s"
      unfolding columns_ok_def by auto
    then have len: "column_length hc i = int (length s)"
      by (simp add: column_length_def)
    have ok: "columns_ok hc (i + 1)"
      using "1.prems" unfolding columns_ok_def by auto
    show ?thesis
    proof (cases "find_words_labels hc root store i 0")
      case (Inl e)
      with True s len show ?thesis
        by (simp add: find_words_columns.simps [of hc root store i] cells_from_rec
                      top_calls_append find_words_labels_top_calls [symmetric])
    next
      case (Inr st)
      obtain hc' root' store' where st: "st = (hc', root', store')"
        by (cases st)
      from Inr st find_words_labels_frame have hc': "hc' = hc"
        by blast
      from "1.IH" [OF True Inr [unfolded st] refl refl] ok hc'
      have "find_words_columns hc root' store' (i + 1) =
              top_calls hc root' store' (cells_from hc (i + 1))"
        by simp
      with True s len Inr st hc' show ?thesis
        by (simp add: find_words_columns.simps [of hc root store i] cells_from_rec
                      top_calls_append find_words_labels_top_calls [symmetric])
    qed
  qed
qed

lemma find_words_columns_ok:
  "find_words_columns hc root store i = Inr r \<Longrightarrow> columns_ok hc i"
proof (induction hc root store i rule: find_words_columns.induct)
  case (1 hc root store i)
  show ?case
  proof (cases "i < number_columns hc")
    case False
    then show ?thesis
      by (auto simp: columns_ok_def)
  next
    case True
    with "1.prems" obtain hc' root' store' where
      l: "find_words_labels hc root store i 0 = Inr (hc', root', store')" and
      c: "find_words_columns hc' root' store' (i + 1) = Inr r"
      by (auto simp: find_words_columns.simps [of hc root store i] split: sum.splits)
    from find_words_labels_frame [OF l] have hc': "hc' = hc" .
    from l obtain s where s: "column_at hc i = Inr s"
      by (auto simp: find_words_labels.simps [of hc root store i 0] split: sum.splits)
    from "1.IH" [OF True l refl refl c] hc' have "columns_ok hc (i + 1)"
      by simp
    then have "\<exists>s. column_at hc k = Inr s" if "i \<le> k" "k < number_columns hc" for k
      using that s unfolding columns_ok_def by (cases "k = i") auto
    then show ?thesis
      unfolding columns_ok_def by blast
  qed
qed

lemma wf_honeycomb_column_at:
  "wf_honeycomb hc \<Longrightarrow> 0 \<le> k \<Longrightarrow> k < number_columns hc \<Longrightarrow> \<exists>s. column_at hc k = Inr s"
  by (auto simp: wf_honeycomb_def column_at_def list_all_length split: option.splits)

lemma find_words_top_calls_wf:
  "wf_honeycomb hc \<Longrightarrow> find_words hc root store = top_calls hc root store (cells hc)"
  unfolding find_words_def cells_def
  by (rule find_words_columns_top_calls) (auto simp: columns_ok_def wf_honeycomb_column_at)

lemma find_words_top_calls:
  "find_words hc root store = Inr r \<Longrightarrow> top_calls hc root store (cells hc) = Inr r"
  unfolding find_words_def cells_def
  using find_words_columns_top_calls [OF find_words_columns_ok] by metis

lemma in_grid_cells: "(i, j) \<in> set (cells hc) \<Longrightarrow> in_grid hc i j"
proof -
  assume "(i, j) \<in> set (cells hc)"
  then have "0 \<le> i" "i < number_columns hc" "0 \<le> j" "j \<le> column_length hc i - 1"
    by (auto simp: cells_def cells_from_def)
  then show ?thesis
    by (auto simp: in_grid_def column_length_def split: sum.splits)
qed

lemma column_at_set_cell:
  "set_cell hc column label x = Inr hc1 \<Longrightarrow>
     column_at hc1 k =
       (if k = column then map_sum id (\<lambda>s. s[nat label := x]) (column_at hc k)
        else column_at hc k)"
proof -
  assume "set_cell hc column label x = Inr hc1"
  then obtain s where
    s: "column_at hc column = Inr s" and
    hc1: "columns hc1 = (columns hc)[nat column := Some (s[nat label := x])]"
    by (auto simp: set_cell_def split: sum.splits if_splits)
  from s have c: "0 \<le> column" "nat column < length (columns hc)"
    by (auto simp: column_at_def split: if_splits)
  show ?thesis
  proof (cases "k = column")
    case True
    with s c hc1 show ?thesis
      by (simp add: column_at_def)
  next
    case False
    with c have "0 \<le> k \<Longrightarrow> nat k \<noteq> nat column"
      by simp
    with False hc1 show ?thesis
      by (auto simp: column_at_def)
  qed
qed

lemma number_columns_set_cell:
  "set_cell hc column label x = Inr hc1 \<Longrightarrow> number_columns hc1 = number_columns hc"
  by (auto simp: set_cell_def split: sum.splits if_splits)

lemma wf_honeycomb_set_cell:
  assumes "wf_honeycomb hc" and "set_cell hc column label x = Inr hc1"
  shows "wf_honeycomb hc1"
proof -
  from assms(2) obtain s where
    "columns hc1 = (columns hc)[nat column := Some s]" and "number_columns hc1 = number_columns hc"
    by (auto simp: set_cell_def split: sum.splits if_splits)
  with assms(1) show ?thesis
    by (auto simp: wf_honeycomb_def list_all_iff dest!: set_update_subset_insert [THEN subsetD])
qed

lemma in_grid_set_cell:
  "set_cell hc column label x = Inr hc1 \<Longrightarrow> in_grid hc1 c l = in_grid hc c l"
  by (auto simp: in_grid_def column_at_set_cell number_columns_set_cell split: sum.splits)

lemma off_grid_wf:
  "wf_honeycomb hc \<Longrightarrow>
     off_grid hc column label =
       Inr (\<not> in_grid hc column label \<or> cell_at hc column label = Inr CHR ''-'')"
proof (cases "0 \<le> column \<and> column < number_columns hc")
  case False
  then show ?thesis
    by (auto simp: off_grid_def in_grid_def)
next
  case True
  assume "wf_honeycomb hc"
  with True wf_honeycomb_column_at [of hc column] obtain s where "column_at hc column = Inr s"
    by blast
  with True show ?thesis
    by (auto simp: off_grid_def in_grid_def cell_at_def nat_less_iff)
qed

lemma cell_at_in_grid: "in_grid hc column label \<Longrightarrow> \<exists>c. cell_at hc column label = Inr c"
  by (auto simp: in_grid_def cell_at_def split: sum.splits)

lemma set_cell_in_grid: "in_grid hc column label \<Longrightarrow> \<exists>hc1. set_cell hc column label x = Inr hc1"
  by (auto simp: in_grid_def set_cell_def split: sum.splits)

lemma strncat1_Inl: "strncat1 word c = Inl e \<Longrightarrow> e = Word_Out_Of_Bounds"
  by (auto simp: strncat1_def split: if_splits)

lemma child_at_Inl: "child_at node index = Inl e \<Longrightarrow> e = Trie_Out_Of_Bounds"
  by (auto simp: child_at_def split: if_splits)

lemma enter_Inl_wf:
  assumes wf: "wf_honeycomb hc"
    and w: "word \<noteq> [] \<or> in_grid hc column label"
    and e: "enter hc node store word column label = Inl e"
  shows "e = Trie_Out_Of_Bounds \<or> e = Word_Out_Of_Bounds"
proof -
  from off_grid_wf [OF wf, of column label] obtain b where
    b: "off_grid hc column label = Inr b" and
    g: "\<not> b \<Longrightarrow> in_grid hc column label"
    by auto
  show ?thesis
  proof (cases "b \<and> word \<noteq> []")
    case True
    with e b show ?thesis
      by (simp add: enter_def)
  next
    case False
    with w g have g: "in_grid hc column label"
      by auto
    from cell_at_in_grid [OF g] obtain c where c: "cell_at hc column label = Inr c"
      by blast
    from set_cell_in_grid [OF g] obtain hc1 where m: "set_cell hc column label CHR ''-'' = Inr hc1"
      by blast
    show ?thesis
    proof (cases "strncat1 word c")
      case (Inl e')
      with e b False c strncat1_Inl [OF Inl] show ?thesis
        by (simp add: enter_def)
    next
      case (Inr w1)
      note w1 = Inr
      show ?thesis
      proof (cases "child_at node (CHAR_TO_INDEX c)")
        case (Inl e')
        with e b False c w1 child_at_Inl [OF Inl] show ?thesis
          by (simp add: enter_def)
      next
        case (Inr ch)
        with e b False c w1 m strncat1_chop [OF w1] show ?thesis
          by (cases ch) (simp_all add: enter_def split: prod.splits)
      qed
    qed
  qed
qed

lemma enter_Descend_wf:
  "enter hc node store word column label = Inr (Descend c hc1 n1 s1 w1) \<Longrightarrow>
     wf_honeycomb hc \<Longrightarrow> wf_honeycomb hc1 \<and> w1 \<noteq> []"
  by (auto simp: enter_Descend strncat1_def wf_honeycomb_set_cell split: if_splits)

lemma search_faults:
  "wf_honeycomb hc \<Longrightarrow> word \<noteq> [] \<or> in_grid hc column label \<Longrightarrow>
     find_words_trie hc node store word column label = Inl e \<Longrightarrow>
     e = Trie_Out_Of_Bounds \<or> e = Word_Out_Of_Bounds"
  "wf_honeycomb hc \<Longrightarrow> word \<noteq> [] \<Longrightarrow>
     find_words_around hc node store word column label offs = Inl e \<Longrightarrow>
     e = Trie_Out_Of_Bounds \<or> e = Word_Out_Of_Bounds"
proof (induction hc node store word column label and hc node store word column label offs
       arbitrary: e and e rule: search_induct)
  case (Trie hc node store word column label)
  show ?case
  proof (cases "enter hc node store word column label")
    case (Inl e')
    with Trie.prems find_words_trie_Inl [OF Inl] enter_Inl_wf [OF Trie.prems(1,2) Inl]
    show ?thesis by simp
  next
    case (Inr ent)
    show ?thesis
    proof (cases ent)
      case (Return st)
      with Inr Trie.prems(3) find_words_trie_Return show ?thesis
        by fastforce
    next
      case (Descend c hc1 n1 s1 w1)
      with Inr have en: "enter hc node store word column label = Inr (Descend c hc1 n1 s1 w1)"
        by simp
      from Trie.prems(3) have "find_words_around hc1 n1 s1 w1 column label neighbours = Inl e"
        by (auto simp: find_words_trie_Descend [OF en] split: sum.splits)
      with Trie.IH [OF en] enter_Descend_wf [OF en Trie.prems(1)] show ?thesis
        by blast
    qed
  qed
next
  case (Nil hc node store word column label)
  then show ?case by simp
next
  case (Cons hc node store word column label i j rest)
  show ?case
  proof (cases "i = 0 \<and> j = 0")
    case True
    with Cons.prems Cons.IH(3) show ?thesis
      by (simp add: find_words_around_Cons)
  next
    case False
    show ?thesis
    proof (cases "find_words_trie hc node store word (column + i) (label + j)")
      case (Inl e')
      with False Cons.prems(3) have "e' = e"
        by (auto simp: find_words_around_Cons)
      with Cons.IH(1) [OF False Cons.prems(1) disjI1 [OF Cons.prems(2)] Inl] show ?thesis
        by simp
    next
      case (Inr st)
      then obtain node' store' where st: "st = (hc, node', store', word)"
        using find_words_trie_frame_full by blast
      with False Inr Cons.prems(3) have
        "find_words_around hc node' store' word column label rest = Inl e"
        by (auto simp: find_words_around_Cons)
      with Cons.IH(2) [OF False Inr [unfolded st] Cons.prems(1,2)] show ?thesis
        by simp
    qed
  qed
qed

lemma top_calls_faults:
  "wf_honeycomb hc \<Longrightarrow> \<forall>(i, j) \<in> set cs. in_grid hc i j \<Longrightarrow>
     top_calls hc root store cs = Inl e \<Longrightarrow>
     e = Trie_Out_Of_Bounds \<or> e = Word_Out_Of_Bounds"
proof (induction cs arbitrary: root store)
  case Nil
  then show ?case by simp
next
  case (Cons x cs)
  obtain i j where x: "x = (i, j)"
    by (cases x)
  with Cons.prems(2) have g: "in_grid hc i j"
    by simp
  show ?case
  proof (cases "find_words_trie hc root store [] i j")
    case (Inl e')
    with Cons.prems(3) x have "e' = e"
      by (simp add: top_calls_Cons)
    with search_faults(1) [OF Cons.prems(1) disjI2 [OF g] Inl] show ?thesis
      by simp
  next
    case (Inr st)
    then obtain root' store' where st: "st = (hc, root', store', [])"
      using find_words_trie_frame_full by blast
    with Inr Cons.prems(3) x have "top_calls hc root' store' cs = Inl e"
      by (simp add: top_calls_Cons)
    with Cons.IH [OF Cons.prems(1)] Cons.prems(2) show ?thesis
      by simp
  qed
qed

subsection \<open>The sanity check\<close>

lemma find_words_trie_pruned:
  assumes "wf_honeycomb hc" and "word \<noteq> []"
    and "\<not> in_grid hc column label \<or> cell_at hc column label = Inr CHR ''-''"
  shows "find_words_trie hc node store word column label = Inr (hc, node, store, word)"
proof -
  from assms off_grid_wf [OF assms(1), of column label] have
    "enter hc node store word column label = Inr (Return (hc, node, store, word))"
    by (simp add: enter_def)
  then show ?thesis
    by (rule find_words_trie_Return)
qed

text \<open>
  C7.  In a well-formed honeycomb a call of \<open>find_words_trie\<close> with a word buffer that
  is not empty returns at once, and leaves the honeycomb, the trie, the store and the
  word as they are, when the coordinate is out of bounds or the cell holds the marker.
  \<open>find_words\<close> is the sequence of the calls with an empty word at the coordinates
  \<open>cells hc\<close>, all of them in bounds; no such call, and so no run of \<open>find_words\<close>,
  reads a cell that does not exist or a column that is null.
\<close>

theorem sanity_check:
  assumes "wf_honeycomb hc"
  shows "(word \<noteq> [] \<and> (\<not> in_grid hc column label \<or> cell_at hc column label = Inr CHR ''-'') \<longrightarrow>
            find_words_trie hc node store word column label = Inr (hc, node, store, word)) \<and>
         find_words hc root store0 = top_calls hc root store0 (cells hc) \<and>
         (\<forall>(i, j) \<in> set (cells hc). in_grid hc i j) \<and>
         (in_grid hc column label \<longrightarrow>
            find_words_trie hc node store [] column label \<noteq> Inl Grid_Out_Of_Bounds \<and>
            find_words_trie hc node store [] column label \<noteq> Inl Null_Column) \<and>
         find_words hc root store0 \<noteq> Inl Grid_Out_Of_Bounds \<and>
         find_words hc root store0 \<noteq> Inl Null_Column"
proof -
  have g: "\<forall>(i, j) \<in> set (cells hc). in_grid hc i j"
    using in_grid_cells by blast
  have t: "find_words hc root store0 = top_calls hc root store0 (cells hc)"
    by (rule find_words_top_calls_wf [OF assms])
  have "e = Trie_Out_Of_Bounds \<or> e = Word_Out_Of_Bounds"
    if "find_words hc root store0 = Inl e" for e
    using top_calls_faults [OF assms g] that t by simp
  then have f: "find_words hc root store0 \<noteq> Inl Grid_Out_Of_Bounds \<and>
      find_words hc root store0 \<noteq> Inl Null_Column"
    by blast
  have "e = Trie_Out_Of_Bounds \<or> e = Word_Out_Of_Bounds"
    if "in_grid hc column label" "find_words_trie hc node store [] column label = Inl e" for e
    using search_faults(1) [OF assms disjI2 [OF that(1)] that(2)] .
  then have c: "in_grid hc column label \<longrightarrow>
            find_words_trie hc node store [] column label \<noteq> Inl Grid_Out_Of_Bounds \<and>
            find_words_trie hc node store [] column label \<noteq> Inl Null_Column"
    by blast
  from find_words_trie_pruned [OF assms] g t f c show ?thesis
    by blast
qed

theorem sanity_check_witness:
  "wf_honeycomb example_honeycomb \<and>
   \<not> in_grid example_honeycomb 3 0 \<and>
   find_words_trie example_honeycomb example_root [] ''B'' 3 0 =
     Inr (example_honeycomb, example_root, [], ''B'') \<and>
   in_grid example_honeycomb 1 2 \<and>
   find_words_trie example_honeycomb example_root [] [] 1 2 \<noteq> Inl Grid_Out_Of_Bounds \<and>
   find_words example_honeycomb example_root [] \<noteq> Inl Grid_Out_Of_Bounds"
proof -
  have wf: "wf_honeycomb example_honeycomb"
    by code_simp
  have out: "\<not> in_grid example_honeycomb 3 0"
    by code_simp
  have inside: "in_grid example_honeycomb 1 2"
    by code_simp
  have "''B'' \<noteq> []"
    by simp
  with sanity_check [OF wf, of "''B''" 3 0 example_root "[]"] out have
    "find_words_trie example_honeycomb example_root [] ''B'' 3 0 =
       Inr (example_honeycomb, example_root, [], ''B'')"
    by blast
  moreover from sanity_check [OF wf, of _ 1 2 example_root "[]" example_root "[]"] inside have
    "find_words_trie example_honeycomb example_root [] [] 1 2 \<noteq> Inl Grid_Out_Of_Bounds \<and>
     find_words example_honeycomb example_root [] \<noteq> Inl Grid_Out_Of_Bounds"
    by blast
  ultimately show ?thesis
    using wf out inside by blast
qed

subsection \<open>Indices into the array of children\<close>

lemma column_at_Inl:
  "column_at hc k = Inl e \<Longrightarrow> e = Grid_Out_Of_Bounds \<or> e = Null_Column"
  by (auto simp: column_at_def split: if_splits option.splits)

lemma off_grid_Inl:
  "off_grid hc column label = Inl e \<Longrightarrow> e = Grid_Out_Of_Bounds \<or> e = Null_Column"
  by (cases "column_at hc column") (auto simp: off_grid_def dest: column_at_Inl split: if_splits)

lemma cell_at_Inl:
  "cell_at hc column label = Inl e \<Longrightarrow> e = Grid_Out_Of_Bounds \<or> e = Null_Column"
  by (cases "column_at hc column") (auto simp: cell_at_def dest: column_at_Inl split: if_splits)

lemma set_cell_Inl:
  "set_cell hc column label x = Inl e \<Longrightarrow> e = Grid_Out_Of_Bounds \<or> e = Null_Column"
  by (cases "column_at hc column") (auto simp: set_cell_def dest: column_at_Inl split: if_splits)

lemma enter_Trie_fault:
  assumes e: "enter hc node store word column label = Inl Trie_Out_Of_Bounds"
  shows "\<exists>b c. off_grid hc column label = Inr b \<and> (b \<longrightarrow> word = []) \<and>
           cell_at hc column label = Inr c \<and>
           child_at node (CHAR_TO_INDEX c) = Inl Trie_Out_Of_Bounds"
proof (cases "off_grid hc column label")
  case (Inl e')
  with e off_grid_Inl [OF Inl] show ?thesis
    by (auto simp: enter_def)
next
  case (Inr b)
  note b = Inr
  show ?thesis
  proof (cases "b \<and> word \<noteq> []")
    case True
    with e b show ?thesis
      by (simp add: enter_def)
  next
    case False
    show ?thesis
    proof (cases "cell_at hc column label")
      case (Inl e')
      with e b False cell_at_Inl [OF Inl] show ?thesis
        by (auto simp: enter_def)
    next
      case (Inr c)
      note c = Inr
      show ?thesis
      proof (cases "strncat1 word c")
        case (Inl e')
        with e b False c strncat1_Inl [OF Inl] show ?thesis
          by (auto simp: enter_def)
      next
        case (Inr w1)
        note w1 = Inr
        show ?thesis
        proof (cases "child_at node (CHAR_TO_INDEX c)")
          case (Inl e')
          with b False c child_at_Inl [OF Inl] show ?thesis
            by auto
        next
          case (Inr ch)
          note ch = Inr
          show ?thesis
          proof (cases "set_cell hc column label CHR ''-''")
            case (Inl e')
            with e b False c w1 ch strncat1_chop [OF w1] set_cell_Inl [OF Inl] show ?thesis
              by (cases ch) (auto simp: enter_def split: prod.splits)
          next
            case (Inr hc1)
            with e b False c w1 ch strncat1_chop [OF w1] show ?thesis
              by (cases ch) (auto simp: enter_def split: prod.splits)
          qed
        qed
      qed
    qed
  qed
qed

lemma cell_at_mem:
  "cell_at hc column label = Inr c \<Longrightarrow> \<exists>s. Some s \<in> set (columns hc) \<and> c \<in> set s"
  by (auto simp: cell_at_def column_at_def split: if_splits option.splits sum.splits)
     (metis nth_mem)

lemma grid_symbols_cell:
  "grid_symbols hc \<Longrightarrow> cell_at hc column label = Inr c \<Longrightarrow> is_symbol c \<or> c = CHR ''-''"
  using cell_at_mem [of hc column label c] by (fastforce simp: grid_symbols_def)

lemma off_grid_False:
  "off_grid hc column label = Inr False \<Longrightarrow> cell_at hc column label \<noteq> Inr CHR ''-''"
  by (auto simp: off_grid_def cell_at_def nat_less_iff split: if_splits sum.splits)

lemma enter_no_Trie_fault:
  assumes "wf_trie node" and "grid_symbols hc"
    and "word \<noteq> [] \<or> cell_at hc column label \<noteq> Inr CHR ''-''"
  shows "enter hc node store word column label \<noteq> Inl Trie_Out_Of_Bounds"
proof
  assume "enter hc node store word column label = Inl Trie_Out_Of_Bounds"
  from enter_Trie_fault [OF this] obtain b c where
    b: "off_grid hc column label = Inr b" "b \<longrightarrow> word = []" and
    c: "cell_at hc column label = Inr c" and
    f: "child_at node (CHAR_TO_INDEX c) = Inl Trie_Out_Of_Bounds"
    by blast
  from b assms(3) off_grid_False [of hc column label] c have "c \<noteq> CHR ''-''"
    by (cases b) auto
  with grid_symbols_cell [OF assms(2) c] have "is_symbol c"
    by simp
  from child_at_wf [OF assms(1) this] f show False
    by simp
qed

lemma wf_trie_record_word:
  "wf_trie next_node \<Longrightarrow> record_word next_node store word = (n1, s1) \<Longrightarrow> wf_trie n1"
  by (cases next_node) (auto simp: record_word_def split: if_splits)

lemma enter_Descend_wf_trie:
  assumes "enter hc node store word column label = Inr (Descend c hc1 n1 s1 w1)"
    and "wf_trie node"
  shows "wf_trie n1"
proof -
  from assms(1) obtain next_node where
    c: "child_at node (CHAR_TO_INDEX c) = Inr (Some next_node)" and
    r: "record_word next_node store w1 = (n1, s1)"
    by (auto simp: enter_Descend)
  from wf_trie_record_word [OF wf_trie_child [OF assms(2) c] r] show ?thesis .
qed

lemma grid_symbols_set_cell:
  assumes "grid_symbols hc" and "set_cell hc column label CHR ''-'' = Inr hc1"
  shows "grid_symbols hc1"
proof -
  from assms(2) obtain s where
    s: "column_at hc column = Inr s" and
    hc1: "columns hc1 = (columns hc)[nat column := Some (s[nat label := CHR ''-''])]"
    by (auto simp: set_cell_def split: sum.splits if_splits)
  from s have "Some s \<in> set (columns hc)"
    by (auto simp: column_at_def split: if_splits option.splits) (metis nth_mem)
  with assms(1) have "\<forall>c \<in> set s. is_symbol c \<or> c = CHR ''-''"
    by (fastforce simp: grid_symbols_def)
  then have "\<forall>c \<in> set (s[nat label := CHR ''-'']). is_symbol c \<or> c = CHR ''-''"
    using set_update_subset_insert [of s "nat label" "CHR ''-''"] by blast
  with assms(1) hc1 show ?thesis
    using set_update_subset_insert [of "columns hc" "nat column"]
    by (fastforce simp: grid_symbols_def)
qed

lemma search_wf_trie:
  "wf_trie node \<Longrightarrow>
     find_words_trie hc node store word column label = Inr (hc', node', store', word') \<Longrightarrow>
     wf_trie node'"
  "wf_trie node \<Longrightarrow>
     find_words_around hc node store word column label offs = Inr (hc', node', store', word') \<Longrightarrow>
     wf_trie node'"
proof (induction hc node store word column label and hc node store word column label offs
       arbitrary: hc' node' store' word' and hc' node' store' word' rule: search_induct)
  case (Trie hc node store word column label)
  show ?case
  proof (cases "enter hc node store word column label")
    case (Inl e)
    with Trie.prems(2) find_words_trie_Inl [OF Inl] show ?thesis
      by simp
  next
    case (Inr ent)
    show ?thesis
    proof (cases ent)
      case (Return st)
      with Inr Trie.prems find_words_trie_Return [of hc node store word column label st]
      show ?thesis by simp
    next
      case (Descend c hc1 n1 s1 w1)
      with Inr have en: "enter hc node store word column label = Inr (Descend c hc1 n1 s1 w1)"
        by simp
      from Trie.prems(2) obtain hc2 n2 s2 w2 where
        a: "find_words_around hc1 n1 s1 w1 column label neighbours = Inr (hc2, n2, s2, w2)" and
        n: "node' = set_child node (CHAR_TO_INDEX c) n2"
        by (auto simp: find_words_trie_Descend [OF en] split: sum.splits)
      from Trie.IH [OF en enter_Descend_wf_trie [OF en Trie.prems(1)] a] n Trie.prems(1)
      show ?thesis
        by (simp add: wf_trie_set_child)
    qed
  qed
next
  case (Nil hc node store word column label)
  then show ?case by simp
next
  case (Cons hc node store word column label i j rest)
  show ?case
  proof (cases "i = 0 \<and> j = 0")
    case True
    with Cons.prems Cons.IH(3) show ?thesis
      by (auto simp: find_words_around_Cons)
  next
    case False
    show ?thesis
    proof (cases "find_words_trie hc node store word (column + i) (label + j)")
      case (Inl e)
      with False Cons.prems(2) show ?thesis
        by (auto simp: find_words_around_Cons)
    next
      case (Inr st)
      then obtain n1 s1 where st: "st = (hc, n1, s1, word)"
        using find_words_trie_frame_full by blast
      note t = Inr [unfolded st]
      from False t Cons.prems(2) have
        a: "find_words_around hc n1 s1 word column label rest = Inr (hc', node', store', word')"
        by (auto simp: find_words_around_Cons)
      from Cons.IH(2) [OF False t Cons.IH(1) [OF False Cons.prems(1) t] a] show ?thesis .
    qed
  qed
qed

lemma search_no_trie_fault:
  "wf_trie node \<Longrightarrow> grid_symbols hc \<Longrightarrow>
     word \<noteq> [] \<or> cell_at hc column label \<noteq> Inr CHR ''-'' \<Longrightarrow>
     find_words_trie hc node store word column label \<noteq> Inl Trie_Out_Of_Bounds"
  "wf_trie node \<Longrightarrow> grid_symbols hc \<Longrightarrow> word \<noteq> [] \<Longrightarrow>
     find_words_around hc node store word column label offs \<noteq> Inl Trie_Out_Of_Bounds"
proof (induction hc node store word column label and hc node store word column label offs
       rule: search_induct)
  case (Trie hc node store word column label)
  show ?case
  proof (cases "enter hc node store word column label")
    case (Inl e)
    with enter_no_Trie_fault [OF Trie.prems, of store] find_words_trie_Inl [OF Inl]
    show ?thesis by auto
  next
    case (Inr ent)
    show ?thesis
    proof (cases ent)
      case (Return st)
      with Inr find_words_trie_Return [of hc node store word column label st]
      show ?thesis by simp
    next
      case (Descend c hc1 n1 s1 w1)
      with Inr have en: "enter hc node store word column label = Inr (Descend c hc1 n1 s1 w1)"
        by simp
      then have g: "grid_symbols hc1" and w: "w1 \<noteq> []"
        using Trie.prems(2) grid_symbols_set_cell
        by (auto simp: enter_Descend strncat1_def split: if_splits)
      from Trie.IH [OF en enter_Descend_wf_trie [OF en Trie.prems(1)] g w] show ?thesis
        by (auto simp: find_words_trie_Descend [OF en] split: sum.splits)
    qed
  qed
next
  case (Nil hc node store word column label)
  then show ?case by simp
next
  case (Cons hc node store word column label i j rest)
  show ?case
  proof (cases "i = 0 \<and> j = 0")
    case True
    with Cons.prems Cons.IH(3) show ?thesis
      by (auto simp: find_words_around_Cons)
  next
    case False
    show ?thesis
    proof (cases "find_words_trie hc node store word (column + i) (label + j)")
      case (Inl e)
      with False Cons.IH(1) [OF False Cons.prems(1,2) disjI1 [OF Cons.prems(3)]] show ?thesis
        by (auto simp: find_words_around_Cons)
    next
      case (Inr st)
      then obtain n1 s1 where st: "st = (hc, n1, s1, word)"
        using find_words_trie_frame_full by blast
      from search_wf_trie(1) [OF Cons.prems(1) Inr [unfolded st]] have "wf_trie n1" .
      from Cons.IH(2) [OF False Inr [unfolded st] this Cons.prems(2,3)] False Inr st
      show ?thesis
        by (auto simp: find_words_around_Cons)
    qed
  qed
qed


lemma is_symbol_not_marker: "is_symbol c \<Longrightarrow> c \<noteq> CHR ''-''"
  by (auto simp: is_symbol_def)

lemma all_symbols_grid_symbols: "all_symbols hc \<Longrightarrow> grid_symbols hc"
  by (fastforce simp: all_symbols_def grid_symbols_def split: option.splits)

lemma all_symbols_cell:
  "all_symbols hc \<Longrightarrow> cell_at hc column label = Inr c \<Longrightarrow> is_symbol c"
  using cell_at_mem [of hc column label c] by (fastforce simp: all_symbols_def)

lemma top_calls_no_trie_fault:
  "wf_trie root \<Longrightarrow> all_symbols hc \<Longrightarrow>
     top_calls hc root store cs \<noteq> Inl Trie_Out_Of_Bounds"
proof (induction cs arbitrary: root store)
  case Nil
  then show ?case by simp
next
  case (Cons x cs)
  obtain i j where x: "x = (i, j)"
    by (cases x)
  have "cell_at hc i j \<noteq> Inr CHR ''-''"
    using all_symbols_cell [OF Cons.prems(2)] is_symbol_not_marker by blast
  then have t: "find_words_trie hc root store [] i j \<noteq> Inl Trie_Out_Of_Bounds"
    by (intro search_no_trie_fault(1) [OF Cons.prems(1) all_symbols_grid_symbols [OF Cons.prems(2)]]
          disjI2)
  show ?case
  proof (cases "find_words_trie hc root store [] i j")
    case (Inl e)
    with t x show ?thesis
      by (auto simp: top_calls_Cons)
  next
    case (Inr st)
    then obtain root' store' where st: "st = (hc, root', store', [])"
      using find_words_trie_frame_full by blast
    from search_wf_trie(1) [OF Cons.prems(1) Inr [unfolded st]] have "wf_trie root'" .
    from Cons.IH [OF this Cons.prems(2)] Inr st x show ?thesis
      by (simp add: top_calls_Cons)
  qed
qed

lemma child_at_not_symbol:
  "\<not> is_symbol c \<Longrightarrow> child_at node (CHAR_TO_INDEX c) = Inl Trie_Out_Of_Bounds"
  by (auto simp: child_at_def CHAR_TO_INDEX_range)

lemma child_at_Inr_symbol:
  "child_at node (CHAR_TO_INDEX c) = Inr child \<Longrightarrow> is_symbol c"
  using child_at_not_symbol [of c node] by auto

lemma insert_trie_not_symbol:
  "\<not> is_symbol c \<Longrightarrow> insert_trie root (c # key) = Inl Trie_Out_Of_Bounds"
  by (simp add: child_at_not_symbol)

lemma insert_trie_symbols:
  "insert_trie root key = Inr t \<Longrightarrow> \<forall>c \<in> set key. is_symbol c"
proof (induction key arbitrary: root t)
  case Nil
  then show ?case by simp
next
  case (Cons d key)
  from Cons.prems obtain child child' where
    c: "child_at root (CHAR_TO_INDEX d) = Inr child" and
    i: "insert_trie (case child of None \<Rightarrow> get_trienode | Some n \<Rightarrow> n) key = Inr child'"
    by (auto split: sum.splits)
  from Cons.IH [OF i] child_at_Inr_symbol [OF c] show ?case
    by simp
qed

lemma insert_trie_total:
  "wf_trie root \<Longrightarrow> \<forall>c \<in> set key. is_symbol c \<Longrightarrow> \<exists>t. insert_trie root key = Inr t"
proof (induction key arbitrary: root)
  case Nil
  then show ?case by simp
next
  case (Cons d key)
  from Cons.prems child_at_wf [of root d] obtain child where
    c: "child_at root (CHAR_TO_INDEX d) = Inr child"
    by auto
  have "wf_trie (case child of None \<Rightarrow> get_trienode | Some n \<Rightarrow> n)"
    using c Cons.prems(1) wf_trie_child by (auto split: option.splits)
  from Cons.IH [OF this] Cons.prems(2) obtain child' where
    "insert_trie (case child of None \<Rightarrow> get_trienode | Some n \<Rightarrow> n) key = Inr child'"
    by auto
  with c show ?case
    by simp
qed

lemma off_grid_of_cell:
  "cell_at hc column label = Inr c \<Longrightarrow> \<exists>b. off_grid hc column label = Inr b"
  by (auto simp: off_grid_def cell_at_def split: sum.splits if_splits)

lemma find_words_trie_not_symbol:
  assumes c: "cell_at hc column label = Inr c" and n: "\<not> is_symbol c"
  shows "find_words_trie hc node store [] column label = Inl Trie_Out_Of_Bounds"
proof -
  from off_grid_of_cell [OF c] obtain b where "off_grid hc column label = Inr b"
    by blast
  with c child_at_not_symbol [OF n] have
    "enter hc node store [] column label = Inl Trie_Out_Of_Bounds"
    by (simp add: enter_def strncat1_def WORD_SIZE_def)
  then show ?thesis
    by (rule find_words_trie_Inl)
qed

lemma top_calls_symbols:
  "top_calls hc root store cs = Inr r \<Longrightarrow> (i, j) \<in> set cs \<Longrightarrow>
     cell_at hc i j = Inr c \<Longrightarrow> is_symbol c"
proof (induction cs arbitrary: root store)
  case Nil
  then show ?case by simp
next
  case (Cons x cs)
  obtain i' j' where x: "x = (i', j')"
    by (cases x)
  from Cons.prems(1) x obtain root' store' where
    t: "find_words_trie hc root store [] i' j' = Inr (hc, root', store', [])" and
    r: "top_calls hc root' store' cs = Inr r"
    using find_words_trie_frame_full [of hc root store "[]" i' j']
    by (cases "find_words_trie hc root store [] i' j'") (auto simp: top_calls_Cons)
  show ?case
  proof (cases "(i, j) = (i', j')")
    case True
    with t Cons.prems(3) find_words_trie_not_symbol [of hc i j c root store] show ?thesis
      by auto
  next
    case False
    with Cons.prems(2) x have "(i, j) \<in> set cs"
      by auto
    from Cons.IH [OF r this Cons.prems(3)] show ?thesis .
  qed
qed

lemma cells_complete:
  assumes wf: "wf_honeycomb hc" and s: "Some s \<in> set (columns hc)" and c: "c \<in> set s"
  shows "\<exists>i j. (i, j) \<in> set (cells hc) \<and> cell_at hc i j = Inr c"
proof -
  from s obtain k where k: "k < length (columns hc)" "columns hc ! k = Some s"
    by (auto simp: in_set_conv_nth)
  from c obtain l where l: "l < length s" "s ! l = c"
    by (auto simp: in_set_conv_nth)
  from k have col: "column_at hc (int k) = Inr s"
    by (simp add: column_at_def)
  with l have cell: "cell_at hc (int k) (int l) = Inr c"
    by (simp add: cell_at_def)
  from wf k have "int k < number_columns hc"
    by (simp add: wf_honeycomb_def)
  then have m1: "int k \<in> set [0..number_columns hc - 1]"
    by simp
  from col l have
    m2: "(int k, int l) \<in> set (map (Pair (int k)) [0..column_length hc (int k) - 1])"
    by (simp add: column_length_def)
  have "(int k, int l) \<in>
      (\<Union>ys \<in> (\<lambda>i. map (Pair i) [0..column_length hc i - 1]) ` set [0..number_columns hc - 1].
          set ys)"
    by (rule UN_I [OF imageI [OF m1]]) (rule m2)
  then have "(int k, int l) \<in> set (cells hc)"
    by (simp only: cells_def cells_from_def set_concat set_map)
  with cell show ?thesis
    by (intro exI conjI)
qed

lemma find_words_symbols:
  assumes wf: "wf_honeycomb hc" and r: "find_words hc root store = Inr r"
  shows "all_symbols hc"
proof -
  note t = find_words_top_calls [OF r]
  have "is_symbol c" if "Some s \<in> set (columns hc)" "c \<in> set s" for s c
    using cells_complete [OF wf that] top_calls_symbols [OF t] by blast
  then show ?thesis
    by (auto simp: all_symbols_def split: option.splits)
qed

text \<open>
  C10.  \<open>CHAR_TO_INDEX\<close> maps a character to an index below \<open>ALPHABET_SIZE\<close> exactly
  when the character is a letter from A to Z.  Nothing checks the character: for any
  other one the read of \<^verbatim>\<open>next[index]\<close> is outside the array, in \<open>insert_trie\<close> and
  in \<open>find_words_trie\<close>.  So \<open>insert_trie\<close> returns only for a key of letters, and
  \<open>find_words\<close> only for a honeycomb of letters; for a well-formed trie, such a key
  and such a honeycomb, every read of a child is in bounds.
\<close>

theorem child_index_bounds:
  "(is_symbol c \<longleftrightarrow> 0 \<le> CHAR_TO_INDEX c \<and> CHAR_TO_INDEX c < int ALPHABET_SIZE) \<and>
   (\<not> is_symbol c \<longrightarrow>
      child_at node (CHAR_TO_INDEX c) = Inl Trie_Out_Of_Bounds \<and>
      insert_trie root (c # key) = Inl Trie_Out_Of_Bounds \<and>
      (cell_at hc column label = Inr c \<longrightarrow>
         find_words_trie hc root store [] column label = Inl Trie_Out_Of_Bounds)) \<and>
   ((\<exists>t. insert_trie root key = Inr t) \<longrightarrow> (\<forall>c \<in> set key. is_symbol c)) \<and>
   (wf_trie root \<and> (\<forall>c \<in> set key. is_symbol c) \<longrightarrow> (\<exists>t. insert_trie root key = Inr t)) \<and>
   (wf_honeycomb hc \<and> (\<exists>r. find_words hc root store = Inr r) \<longrightarrow> all_symbols hc) \<and>
   (wf_honeycomb hc \<and> wf_trie root \<and> all_symbols hc \<longrightarrow>
      find_words hc root store \<noteq> Inl Trie_Out_Of_Bounds)"
proof -
  have "find_words hc root store \<noteq> Inl Trie_Out_Of_Bounds"
    if "wf_honeycomb hc" "wf_trie root" "all_symbols hc"
    using that top_calls_no_trie_fault [of root hc store "cells hc"]
    by (simp add: find_words_top_calls_wf)
  then show ?thesis
    using CHAR_TO_INDEX_range [of c] child_at_not_symbol [of c node]
      insert_trie_not_symbol [of c root key] find_words_trie_not_symbol [of hc column label c root store]
      insert_trie_symbols [of root key] insert_trie_total [of root key]
      find_words_symbols [of hc root store]
    by blast
qed


theorem child_index_bounds_witness:
  "\<not> is_symbol CHR ''a'' \<and>
   insert_trie get_trienode ''aB'' = Inl Trie_Out_Of_Bounds \<and>
   cell_at \<lparr>number_columns = 1, columns = [Some ''a'']\<rparr> 0 0 = Inr CHR ''a'' \<and>
   find_words_trie \<lparr>number_columns = 1, columns = [Some ''a'']\<rparr> example_root [] [] 0 0 =
     Inl Trie_Out_Of_Bounds \<and>
   wf_trie example_root \<and> list_all is_symbol ''BED'' \<and>
   \<not> isl (insert_trie example_root ''BED'') \<and>
   wf_honeycomb example_honeycomb \<and> all_symbols example_honeycomb \<and>
   \<not> isl (find_words example_honeycomb example_root []) \<and>
   find_words example_honeycomb example_root [] \<noteq> Inl Trie_Out_Of_Bounds"
proof -
  let ?bad = "\<lparr>number_columns = 1, columns = [Some ''a'']\<rparr>"
  have n: "\<not> is_symbol CHR ''a''"
    by code_simp
  have c: "cell_at ?bad 0 0 = Inr CHR ''a''"
    by code_simp
  from child_index_bounds [of "CHR ''a''" _ get_trienode "''B''"] n have
    i: "insert_trie get_trienode ''aB'' = Inl Trie_Out_Of_Bounds"
    by blast
  from child_index_bounds [of "CHR ''a''" _ example_root _ ?bad 0 0 "[]"] n c have
    f: "find_words_trie ?bad example_root [] [] 0 0 = Inl Trie_Out_Of_Bounds"
    by blast
  have wt: "wf_trie example_root"
    by code_simp
  have k: "list_all is_symbol ''BED''"
    by code_simp
  then have "\<forall>c \<in> set ''BED''. is_symbol c"
    unfolding list_all_iff .
  with child_index_bounds [of _ _ example_root "''BED''"] wt have
    "\<exists>t. insert_trie example_root ''BED'' = Inr t"
    by blast
  then have t: "\<not> isl (insert_trie example_root ''BED'')"
    by auto
  have wh: "wf_honeycomb example_honeycomb"
    by code_simp
  have a: "all_symbols example_honeycomb"
    by code_simp
  have r: "\<not> isl (find_words example_honeycomb example_root [])"
    by code_simp
  from child_index_bounds [of _ _ example_root _ example_honeycomb _ _ "[]"] wh wt a have
    "find_words example_honeycomb example_root [] \<noteq> Inl Trie_Out_Of_Bounds"
    by blast
  with n i c f wt k t wh a r show ?thesis
    by blast
qed

subsection \<open>Every word is recorded once\<close>

text \<open>
  What a call of the search does to the trie and the store, for a word buffer \<open>word\<close>:
  the store grows by words that are all different; each of them continues \<open>word\<close> by
  a key that led to a terminal node before the call and does not after it; no key leads
  to a terminal node that did not before; the flag of the node itself is unchanged.
\<close>

definition effect :: "trie_node \<Rightarrow> word_store \<Rightarrow> string \<Rightarrow> trie_node \<Rightarrow> word_store \<Rightarrow> bool" where
  "effect node store word node' store' \<longleftrightarrow>
     (\<exists>new. store' = store @ new \<and> distinct new \<and>
        (\<forall>x \<in> set new. \<exists>cs. cs \<noteq> [] \<and> x = word @ cs \<and> is_word node cs \<and> \<not> is_word node' cs)) \<and>
     (\<forall>cs. is_word node' cs \<longrightarrow> is_word node cs) \<and>
     is_end node' = is_end node"

lemma effect_refl: "effect node store word node store"
  by (simp add: effect_def)

lemma effect_trans:
  assumes "effect n0 s0 w n1 s1" and "effect n1 s1 w n2 s2"
  shows "effect n0 s0 w n2 s2"
proof -
  from assms(1) obtain new1 where
    a: "s1 = s0 @ new1" "distinct new1"
       "\<forall>x \<in> set new1. \<exists>cs. cs \<noteq> [] \<and> x = w @ cs \<and> is_word n0 cs \<and> \<not> is_word n1 cs" and
    m1: "\<forall>cs. is_word n1 cs \<longrightarrow> is_word n0 cs" and e1: "is_end n1 = is_end n0"
    unfolding effect_def by blast
  from assms(2) obtain new2 where
    b: "s2 = s1 @ new2" "distinct new2"
       "\<forall>x \<in> set new2. \<exists>cs. cs \<noteq> [] \<and> x = w @ cs \<and> is_word n1 cs \<and> \<not> is_word n2 cs" and
    m2: "\<forall>cs. is_word n2 cs \<longrightarrow> is_word n1 cs" and e2: "is_end n2 = is_end n1"
    unfolding effect_def by blast
  have disj: "set new1 \<inter> set new2 = {}"
  proof (rule ccontr)
    assume "set new1 \<inter> set new2 \<noteq> {}"
    then obtain x where x: "x \<in> set new1" "x \<in> set new2"
      by blast
    from a(3) x(1) obtain cs where cs: "x = w @ cs" "\<not> is_word n1 cs"
      by blast
    from b(3) x(2) obtain cs' where cs': "x = w @ cs'" "is_word n1 cs'"
      by blast
    from cs cs' show False
      by simp
  qed
  have el: "\<forall>x \<in> set (new1 @ new2).
      \<exists>cs. cs \<noteq> [] \<and> x = w @ cs \<and> is_word n0 cs \<and> \<not> is_word n2 cs"
    using a(3) b(3) m1 m2 by (metis Un_iff set_append)
  have "s2 = s0 @ (new1 @ new2)" "distinct (new1 @ new2)"
    using a b disj by simp_all
  with el m1 m2 e1 e2 show ?thesis
    unfolding effect_def by blast
qed

lemma is_word_set_child:
  assumes "child_at node (CHAR_TO_INDEX c) = Inr child"
  shows "is_word (set_child node (CHAR_TO_INDEX c) n2) ks =
           (case ks of [] \<Rightarrow> is_end node
            | d # cs \<Rightarrow> if d = c then is_word n2 cs else is_word node (d # cs))"
proof (cases ks)
  case Nil
  then show ?thesis
    by (simp add: set_child_def)
next
  case (Cons d cs)
  from assms have nonneg: "0 \<le> CHAR_TO_INDEX c"
    by (auto simp: child_at_def split: if_splits)
  show ?thesis
  proof (cases "d = c")
    case True
    with Cons child_at_set_child_same [OF assms] show ?thesis
      by (simp add: is_word_Cons)
  next
    case False
    then have "CHAR_TO_INDEX d \<noteq> CHAR_TO_INDEX c"
      by (simp add: CHAR_TO_INDEX_eq_iff)
    with Cons False nonneg show ?thesis
      by (simp add: is_word_Cons child_at_set_child_other)
  qed
qed

lemma is_word_cleared:
  "is_word (Trie_Node False (next' n)) cs \<longleftrightarrow> cs \<noteq> [] \<and> is_word n cs"
  by (cases cs) (simp_all add: is_word_Cons)

lemma effect_descend:
  assumes en: "enter hc node store word column label = Inr (Descend c hc1 n1 s1 w1)"
    and ef: "effect n1 s1 w1 n2 s2"
  shows "effect node store word (set_child node (CHAR_TO_INDEX c) n2) s2"
proof -
  from en obtain next_node where
    w1: "w1 = word @ [c]" and
    ch: "child_at node (CHAR_TO_INDEX c) = Inr (Some next_node)" and
    r: "record_word next_node store w1 = (n1, s1)"
    by (auto simp: enter_Descend strncat1_def split: if_splits)
  let ?node' = "set_child node (CHAR_TO_INDEX c) n2"
  note sc = is_word_set_child [OF ch]
  have nd: "is_word node (c # cs) = is_word next_node cs" for cs
    using ch by (simp add: is_word_Cons)
  from ef obtain new1 where
    a: "s2 = s1 @ new1" "distinct new1"
       "\<forall>x \<in> set new1. \<exists>cs. cs \<noteq> [] \<and> x = w1 @ cs \<and> is_word n1 cs \<and> \<not> is_word n2 cs" and
    m: "\<forall>cs. is_word n2 cs \<longrightarrow> is_word n1 cs" and e: "is_end n2 = is_end n1"
    unfolding effect_def by blast
  define rec where "rec = (if is_end next_node then [w1] else [])"
  from r have s1: "s1 = store @ rec" and
    n1: "\<And>cs. is_word n1 cs \<Longrightarrow> is_word next_node cs" and
    e1: "is_end next_node \<Longrightarrow> \<not> is_end n1"
    by (auto simp: record_word_def rec_def is_word_cleared split: if_splits)
  have notin: "w1 \<notin> set new1"
    using a(3) by auto
  have "\<exists>cs. cs \<noteq> [] \<and> x = word @ cs \<and> is_word node cs \<and> \<not> is_word ?node' cs"
    if "x \<in> set (rec @ new1)" for x
  proof (cases "x \<in> set rec")
    case True
    then have x: "x = w1" and ie: "is_end next_node"
      by (auto simp: rec_def split: if_splits)
    from e e1 [OF ie] have "\<not> is_end n2"
      by simp
    with x w1 ie nd [of "[]"] sc [of n2 "[c]"] show ?thesis
      by (intro exI [of _ "[c]"]) simp
  next
    case False
    with that have "x \<in> set new1"
      by simp
    with a(3) obtain cs where cs: "cs \<noteq> []" "x = w1 @ cs" "is_word n1 cs" "\<not> is_word n2 cs"
      by blast
    with w1 nd [of cs] n1 [of cs] sc [of n2 "c # cs"] show ?thesis
      by (intro exI [of _ "c # cs"]) simp
  qed
  moreover have "is_word node ks" if "is_word ?node' ks" for ks
  proof (cases ks)
    case Nil
    with that sc [of n2 ks] show ?thesis
      by simp
  next
    case (Cons d cs)
    with that sc [of n2 ks] m n1 [of cs] nd [of cs] show ?thesis
      by (auto split: if_splits)
  qed
  moreover have "s2 = store @ (rec @ new1)" "distinct (rec @ new1)"
    using a(1,2) s1 notin by (auto simp: rec_def)
  moreover have "is_end ?node' = is_end node"
    by (simp add: set_child_def)
  ultimately show ?thesis
    unfolding effect_def by blast
qed

lemma search_effect:
  "find_words_trie hc node store word column label = Inr (hc', node', store', word') \<Longrightarrow>
     effect node store word node' store'"
  "find_words_around hc node store word column label offs = Inr (hc', node', store', word') \<Longrightarrow>
     effect node store word node' store'"
proof (induction hc node store word column label and hc node store word column label offs
       arbitrary: hc' node' store' word' and hc' node' store' word' rule: search_induct)
  case (Trie hc node store word column label)
  show ?case
  proof (cases "enter hc node store word column label")
    case (Inl e)
    with Trie.prems find_words_trie_Inl [OF Inl] show ?thesis
      by simp
  next
    case (Inr ent)
    show ?thesis
    proof (cases ent)
      case (Return st)
      with Inr Trie.prems find_words_trie_Return [of hc node store word column label st]
      show ?thesis by (simp add: effect_refl)
    next
      case (Descend c hc1 n1 s1 w1)
      with Inr have en: "enter hc node store word column label = Inr (Descend c hc1 n1 s1 w1)"
        by simp
      from Trie.prems obtain hc2 n2 s2 w2 where
        a: "find_words_around hc1 n1 s1 w1 column label neighbours = Inr (hc2, n2, s2, w2)" and
        n: "node' = set_child node (CHAR_TO_INDEX c) n2" "store' = s2"
        by (auto simp: find_words_trie_Descend [OF en] split: sum.splits)
      from effect_descend [OF en Trie.IH [OF en a]] n show ?thesis
        by simp
    qed
  qed
next
  case (Nil hc node store word column label)
  then show ?case by (simp add: effect_refl)
next
  case (Cons hc node store word column label i j rest)
  show ?case
  proof (cases "i = 0 \<and> j = 0")
    case True
    with Cons.prems Cons.IH(3) show ?thesis
      by (auto simp: find_words_around_Cons)
  next
    case False
    show ?thesis
    proof (cases "find_words_trie hc node store word (column + i) (label + j)")
      case (Inl e)
      with False Cons.prems show ?thesis
        by (auto simp: find_words_around_Cons)
    next
      case (Inr st)
      then obtain n1 s1 where st: "st = (hc, n1, s1, word)"
        using find_words_trie_frame_full by blast
      note t = Inr [unfolded st]
      from False t Cons.prems have
        a: "find_words_around hc n1 s1 word column label rest = Inr (hc', node', store', word')"
        by (auto simp: find_words_around_Cons)
      from effect_trans [OF Cons.IH(1) [OF False t] Cons.IH(2) [OF False t a]] show ?thesis .
    qed
  qed
qed

lemma top_calls_effect:
  "top_calls hc root store cs = Inr (hc', root', store') \<Longrightarrow> effect root store [] root' store'"
proof (induction cs arbitrary: root store)
  case Nil
  then show ?case by (simp add: effect_refl)
next
  case (Cons x cs)
  obtain i j where x: "x = (i, j)"
    by (cases x)
  show ?case
  proof (cases "find_words_trie hc root store [] i j")
    case (Inl e)
    with Cons.prems x show ?thesis
      by (simp add: top_calls_Cons)
  next
    case (Inr st)
    then obtain n1 s1 where st: "st = (hc, n1, s1, [])"
      using find_words_trie_frame_full by blast
    note t = Inr [unfolded st]
    from t Cons.prems x have "top_calls hc n1 s1 cs = Inr (hc', root', store')"
      by (simp add: top_calls_Cons)
    from effect_trans [OF search_effect(1) [OF t] Cons.IH [OF this]] show ?thesis .
  qed
qed

lemma find_words_effect:
  "find_words hc root store = Inr (hc', root', store') \<Longrightarrow> effect root store [] root' store'"
  using find_words_top_calls top_calls_effect by blast


lemma find_words_trie_records:
  assumes r: "find_words_trie hc node store word column label = Inr (hc', node', store', word')"
    and np: "word = [] \<or> off_grid hc column label = Inr False"
    and c: "cell_at hc column label = Inr c"
    and ch: "child_at node (CHAR_TO_INDEX c) = Inr (Some next_node)"
    and ie: "is_end next_node"
  shows "(\<exists>rest. store' = store @ (word @ [c]) # rest) \<and>
         (\<exists>n. child_at node' (CHAR_TO_INDEX c) = Inr (Some n) \<and> \<not> is_end n)"
proof -
  from off_grid_of_cell [OF c] np obtain b where
    b: "off_grid hc column label = Inr b" "\<not> (b \<and> word \<noteq> [])"
    by auto
  have "\<exists>w1. strncat1 word c = Inr w1"
  proof (cases "strncat1 word c")
    case (Inl e)
    with b c have "enter hc node store word column label = Inl e"
      by (simp add: enter_def)
    from find_words_trie_Inl [OF this] r show ?thesis
      by simp
  qed simp
  then have w1: "strncat1 word c = Inr (word @ [c])"
    by (auto simp: strncat1_def split: if_splits)
  have "\<exists>hc1. set_cell hc column label CHR ''-'' = Inr hc1"
  proof (cases "set_cell hc column label CHR ''-''")
    case (Inl e)
    with b c w1 ch have "enter hc node store word column label = Inl e"
      by (simp add: enter_def split: prod.splits)
    from find_words_trie_Inl [OF this] r show ?thesis
      by simp
  qed simp
  then obtain hc1 where hc1: "set_cell hc column label CHR ''-'' = Inr hc1"
    by blast
  let ?n1 = "Trie_Node False (next' next_node)"
  let ?s1 = "store @ [word @ [c]]"
  from b c w1 ch ie hc1 have
    en: "enter hc node store word column label = Inr (Descend c hc1 ?n1 ?s1 (word @ [c]))"
    by (simp add: enter_def record_word_def)
  from r obtain hc2 n2 s2 w2 where
    a: "find_words_around hc1 ?n1 ?s1 (word @ [c]) column label neighbours = Inr (hc2, n2, s2, w2)" and
    n: "node' = set_child node (CHAR_TO_INDEX c) n2" "store' = s2"
    by (auto simp: find_words_trie_Descend [OF en] split: sum.splits)
  from search_effect(2) [OF a] obtain new where "s2 = ?s1 @ new" and "is_end n2 = is_end ?n1"
    unfolding effect_def by blast
  with n child_at_set_child_same [OF ch, of n2] show ?thesis
    by simp
qed

text \<open>
  C1.  When \<open>find_words_trie\<close> goes on from a cell (the sanity check does not return)
  and the child for the cell's character has its terminal flag set, the word buffer
  with that character appended is the next word of the store, and the flag of that child
  is cleared when the call returns.  The words that one run of \<open>find_words\<close> appends
  to the store are all different, each was a word of the trie before the run and is
  none after it; a store that was empty holds every word once.
\<close>

theorem words_recorded_once:
  "(find_words_trie hc node store word column label = Inr (hc', node', store', word') \<and>
    (word = [] \<or> off_grid hc column label = Inr False) \<and>
    cell_at hc column label = Inr c \<and>
    child_at node (CHAR_TO_INDEX c) = Inr (Some next_node) \<and> is_end next_node \<longrightarrow>
      (\<exists>rest. store' = store @ (word @ [c]) # rest) \<and>
      (\<exists>n. child_at node' (CHAR_TO_INDEX c) = Inr (Some n) \<and> \<not> is_end n)) \<and>
   (find_words hc root store0 = Inr (hc'', root', store'') \<longrightarrow>
      (\<exists>new. store'' = store0 @ new \<and> distinct new \<and>
         (\<forall>x \<in> set new. is_word root x \<and> \<not> is_word root' x))) \<and>
   (find_words hc root create_store = Inr (hc'', root', store'') \<longrightarrow> distinct store'')"
proof -
  have e: "\<exists>new. s' = s @ new \<and> distinct new \<and> (\<forall>x \<in> set new. is_word root x \<and> \<not> is_word root' x)"
    if "find_words hc root s = Inr (hc'', root', s')" for s s'
    using find_words_effect [OF that] unfolding effect_def by auto
  from e [of create_store store''] have
    "find_words hc root create_store = Inr (hc'', root', store'') \<longrightarrow> distinct store''"
    by (auto simp: create_store_def)
  with e [of store0 store''] find_words_trie_records [of hc node store word column label hc' node' store' word' c next_node]
  show ?thesis
    by blast
qed

theorem words_recorded_once_witness:
  "\<not> isl (find_words_trie example_honeycomb (the (projr (descend example_root ''A''))) [] ''A'' 1 1) \<and>
   off_grid example_honeycomb 1 1 = Inr False \<and>
   cell_at example_honeycomb 1 1 = Inr CHR ''D'' \<and>
   is_word (the (projr (descend example_root ''A''))) ''D'' \<and>
   hd (fst (snd (snd (projr (find_words_trie example_honeycomb
        (the (projr (descend example_root ''A''))) [] ''A'' 1 1))))) = ''AD'' \<and>
   \<not> is_word (fst (snd (projr (find_words_trie example_honeycomb
        (the (projr (descend example_root ''A''))) [] ''A'' 1 1)))) ''D'' \<and>
   \<not> isl (find_words example_honeycomb example_root create_store) \<and>
   distinct (snd (snd (projr (find_words example_honeycomb example_root create_store))))"
proof -
  let ?A = "the (projr (descend example_root ''A''))"
  let ?D = "the (projr (descend example_root ''AD''))"
  let ?t = "find_words_trie example_honeycomb ?A [] ''A'' 1 1"
  let ?f = "find_words example_honeycomb example_root create_store"
  have t: "\<not> isl ?t"
    by code_simp
  then obtain hc' node' store' word' where t': "?t = Inr (hc', node', store', word')"
    by (cases ?t) auto
  have o: "off_grid example_honeycomb 1 1 = Inr False"
    by code_simp
  have c: "cell_at example_honeycomb 1 1 = Inr CHR ''D''"
    by code_simp
  have ch: "child_at ?A (CHAR_TO_INDEX CHR ''D'') = Inr (Some ?D)"
    by code_simp
  have ie: "is_end ?D"
    by code_simp
  from ch ie have w: "is_word ?A ''D''"
    by (simp add: is_word_Cons)
  from words_recorded_once
    [of example_honeycomb ?A "[]" "''A''" 1 1 hc' node' store' word' "CHR ''D''" ?D]
    t' o c ch ie
  obtain rest n where
    "store' = [] @ (''A'' @ [CHR ''D'']) # rest"
    "child_at node' (CHAR_TO_INDEX CHR ''D'') = Inr (Some n)" "\<not> is_end n"
    by blast
  then have r1: "hd store' = ''AD''" and r2: "\<not> is_word node' ''D''"
    by (simp_all add: is_word_Cons)
  have f: "\<not> isl ?f"
    by code_simp
  then obtain hc'' root' store'' where f': "?f = Inr (hc'', root', store'')"
    by (cases ?f) auto
  from words_recorded_once f' have "distinct store''"
    by blast
  with t t' o c w r1 r2 f f' show ?thesis
    by simp
qed

end
